theory Spec2Isabelle
  imports Complex_Main
begin

section \<open>JavaScript strings\<close>

text \<open>
  Strings are sequences of ASCII characters. \<open>toLowerCase\<close> and \<open>toUpperCase\<close> map the
  26 letters and leave every other character alone; the white space of \<open>\s\<close> and of
  \<open>trim\<close> is tab, line feed, vertical tab, form feed, carriage return and space.
\<close>

definition upperLetters :: string where
  "upperLetters = ''ABCDEFGHIJKLMNOPQRSTUVWXYZ''"

definition lowerLetters :: string where
  "lowerLetters = ''abcdefghijklmnopqrstuvwxyz''"

definition toLowerChar :: "char \<Rightarrow> char" where
  "toLowerChar c = (case map_of (zip upperLetters lowerLetters) c of Some l \<Rightarrow> l | None \<Rightarrow> c)"

definition toUpperChar :: "char \<Rightarrow> char" where
  "toUpperChar c = (case map_of (zip lowerLetters upperLetters) c of Some u \<Rightarrow> u | None \<Rightarrow> c)"

definition toLowerCase :: "string \<Rightarrow> string" where
  "toLowerCase s = map toLowerChar s"

definition toUpperCase :: "string \<Rightarrow> string" where
  "toUpperCase s = map toUpperChar s"

definition isWhitespace :: "char \<Rightarrow> bool" where
  "isWhitespace c = (c = CHR 0x09 \<or> c = CHR 0x0A \<or> c = CHR 0x0B \<or> c = CHR 0x0C
                     \<or> c = CHR 0x0D \<or> c = CHR 0x20)"

definition trim :: "string \<Rightarrow> string" where
  "trim s = rev (dropWhile isWhitespace (rev (dropWhile isWhitespace s)))"

text \<open>
  \<open>s.split(/\s+/)\<close>: every maximal run of white space is one separator. The piece before
  the first separator and the piece after the last one are kept even when they are empty,
  so the result is never the empty array. \<open>splitWs skipping cur s\<close> reads \<open>s\<close> with the
  current piece \<open>cur\<close>; \<open>skipping\<close> says that the previous character was white space.
\<close>

fun splitWs :: "bool \<Rightarrow> string \<Rightarrow> string \<Rightarrow> string list" where
  "splitWs skipping cur [] = [cur]"
| "splitWs skipping cur (c # cs) =
     (if isWhitespace c
      then (if skipping then splitWs True cur cs else cur # splitWs True [] cs)
      else splitWs False (cur @ [c]) cs)"

definition split_ws :: "string \<Rightarrow> string list" where
  "split_ws s = splitWs False [] s"

text \<open>\<open>parts.join(sep)\<close>\<close>

fun join :: "string \<Rightarrow> string list \<Rightarrow> string" where
  "join sep [] = []"
| "join sep [p] = p"
| "join sep (p # q # ps) = p @ sep @ join sep (q # ps)"

section \<open>The synonym map\<close>

text \<open>
  \<open>SYNONYMS\<close> is an object literal, \<open>SYNONYMS[key]\<close> a property read. A read of a name the
  literal does not define goes on to \<open>Object.prototype\<close>: for the names below it yields
  a function (for \<open>__proto__\<close> the prototype object itself), which is truthy, is not
  iterable and has no \<open>flatMap\<close>. Any other name reads \<open>undefined\<close>.
\<close>

definition SYNONYMS :: "(string \<times> string list) list" where
  "SYNONYMS = [
    (''ecg'', [''electrocardiograph'']),
    (''ekg'', [''electrocardiograph'']),
    (''robot'', [''computer controlled instrument'']),
    (''robotic'', [''computer controlled instrument'']),
    (''bp'', [''blood pressure'']),
    (''cgm'', [''continuous glucose monitor'']),
    (''ai'', [''artificial intelligence'']),
    (''mri'', [''magnetic resonance imaging'']),
    (''ct'', [''computed tomography'']),
    (''xray'', [''x-ray'']),
    (''x-ray'', [''radiographic'']),
    (''ultrasound'', [''ultrasonic'']),
    (''cpap'', [''continuous positive airway pressure'']),
    (''tens'', [''transcutaneous electrical nerve stimulation'']),
    (''iud'', [''intrauterine'']),
    (''stent'', [''endoprosthesis'']),
    (''pacemaker'', [''pulse generator'']),
    (''defibrillator'', [''defibrillator'']),
    (''ventilator'', [''ventilator'']),
    (''catheter'', [''catheter'']),
    (''laser'', [''laser'']),
    (''pump'', [''infusion pump'']),
    (''thermometer'', [''thermometer'']),
    (''oximeter'', [''oximeter'']),
    (''hearing'', [''hearing aid'']),
    (''insulin'', [''insulin'']),
    (''dialysis'', [''hemodialysis'']),
    (''prosthetic'', [''prosthesis'']),
    (''implant'', [''implant'']),
    (''endoscope'', [''endoscope'']),
    (''monitor'', [''monitor'']),
    (''wearable'', [''wearable'']),
    (''patch'', [''ambulatory'']),
    (''portable'', [''portable'']),
    (''wireless'', [''wireless'']),
    (''bluetooth'', [''wireless'']),
    (''home'', [''home use'']),
    (''otc'', [''over-the-counter'']),
    (''samd'', [''software'']),
    (''software device'', [''software'']),
    (''app'', [''software'', ''mobile'']),
    (''cad'', [''computer aided detection'']),
    (''cad-x'', [''computer aided diagnosis'']),
    (''triage'', [''triage'']),
    (''diagnostic'', [''diagnostic'']),
    (''screening'', [''screening'']),
    (''imaging'', [''image processing'']),
    (''ehr'', [''electronic health record'']),
    (''clinical'', [''clinical decision support'']),
    (''cds'', [''clinical decision support'']),
    (''ml'', [''machine learning'']),
    (''deep learning'', [''machine learning'']),
    (''algorithm'', [''algorithm'']),
    (''waveform'', [''electrocardiograph'']),
    (''heart monitor'', [''electrocardiograph'']),
    (''heart rate'', [''heart rate'']),
    (''blood sugar'', [''glucose'']),
    (''glucometer'', [''glucose meter'']),
    (''spo2'', [''oximeter'']),
    (''sleep apnea'', [''sleep apnea'']),
    (''mammography'', [''mammograph'']),
    (''mammogram'', [''mammograph'']),
    (''polyp'', [''lesion'']),
    (''colonoscopy'', [''endoscope gastrointestinal'']),
    (''endoscopy'', [''endoscope'']),
    (''dental'', [''dental'']),
    (''dermatology'', [''dermatoscope'']),
    (''retinal'', [''retinal'']),
    (''fundus'', [''fundus'']),
    (''stroke'', [''stroke'']),
    (''aneurysm'', [''aneurysm'']),
    (''fracture'', [''fracture'']),
    (''tumor'', [''lesion'']),
    (''cancer'', [''cancer'']),
    (''detection'', [''detection'']),
    (''diagnosis'', [''diagnosis''])
  ]"

definition objectPrototypeNames :: "string list" where
  "objectPrototypeNames = [
    ''constructor'', ''__proto__'', ''hasOwnProperty'', ''isPrototypeOf'',
    ''propertyIsEnumerable'', ''toString'', ''toLocaleString'', ''valueOf'',
    ''__defineGetter__'', ''__defineSetter__'', ''__lookupGetter__'', ''__lookupSetter__'']"

text \<open>
  The exceptions of the code: the \<open>TypeError\<close> of a read of an inherited property that is
  then iterated or called, and the \<open>URIError\<close> of \<open>decodeURIComponent\<close>.
\<close>

datatype js_error = TypeError | URIError

datatype synonym_property = Own "string list" | Inherited | Undefined

definition SYNONYMS_get :: "string \<Rightarrow> synonym_property" where
  "SYNONYMS_get key =
     (case map_of SYNONYMS key of
        Some syns \<Rightarrow> Own syns
      | None \<Rightarrow> if List.member objectPrototypeNames key then Inherited else Undefined)"

section \<open>expandSynonyms\<close>

text \<open>
  The state of the loops is the array \<open>expanded\<close> and the set \<open>seen\<close>. \<open>pushWord\<close> is the
  body of the innermost loop, \<open>pushSynonym\<close> the loop over the words of one replacement
  phrase. \<open>if (SYNONYMS[key])\<close> takes the first branch for every truthy value, and
  \<open>for (const syn of SYNONYMS[key])\<close> throws a TypeError when the value is not iterable.
\<close>

type_synonym expand_state = "string list \<times> string set"

fun pushWord :: "expand_state \<Rightarrow> string \<Rightarrow> expand_state" where
  "pushWord (expanded, seen) word =
     (let lower = toLowerCase word
      in if lower \<notin> seen then (expanded @ [word], insert lower seen) else (expanded, seen))"

definition pushSynonym :: "expand_state \<Rightarrow> string \<Rightarrow> expand_state" where
  "pushSynonym st syn = foldl pushWord st (split_ws syn)"

fun expandSynonyms_loop :: "string list \<Rightarrow> expand_state \<Rightarrow> js_error + string list" where
  "expandSynonyms_loop [] (expanded, seen) = Inr expanded"
| "expandSynonyms_loop (t # ts) (expanded, seen) =
     (let key = toLowerCase t
      in case SYNONYMS_get key of
           Own syns \<Rightarrow> expandSynonyms_loop ts (foldl pushSynonym (expanded, seen) syns)
         | Inherited \<Rightarrow> Inl TypeError
         | Undefined \<Rightarrow>
             if key \<notin> seen then expandSynonyms_loop ts (expanded @ [t], insert key seen)
             else expandSynonyms_loop ts (expanded, seen))"

definition expandSynonyms :: "string list \<Rightarrow> js_error + string list" where
  "expandSynonyms terms = expandSynonyms_loop terms ([], {})"

section \<open>generateCombinations\<close>

text \<open>
  \<open>combine n sz start picked\<close> (\<open>sz\<close> is the source's \<open>size\<close>) is the list of arrays the generator \<open>combine(start, picked)\<close>
  yields, in the order it yields them, inside \<open>getCombinationIndices(n, size)\<close>.
\<close>

function combine :: "nat \<Rightarrow> nat \<Rightarrow> nat \<Rightarrow> nat list \<Rightarrow> nat list list" where
  "combine n sz start picked =
     (if length picked = sz then [picked]
      else concat (map (\<lambda>i. combine n sz (Suc i) (picked @ [i])) [start..<n]))"
  by pat_completeness auto
termination
  by (relation "measure (\<lambda>(n, sz, start, picked). n - start)") auto

declare combine.simps [simp del]

fun isContiguous :: "nat list \<Rightarrow> bool" where
  "isContiguous (a # b # rest) = (if b \<noteq> a + 1 then False else isContiguous (b # rest))"
| "isContiguous _ = True"

definition getCombinationIndices :: "nat \<Rightarrow> nat \<Rightarrow> nat list list" where
  "getCombinationIndices n sz =
     (let combos = combine n sz 0 []
      in filter isContiguous combos @ filter (\<lambda>combo. \<not> isContiguous combo) combos)"

definition generateCombinations :: "'a list \<Rightarrow> 'a list list" where
  "generateCombinations terms =
     (if length terms \<le> 1 then [terms]
      else concat (map (\<lambda>sz. map (\<lambda>idx. map (\<lambda>i. terms ! i) idx)
                                     (getCombinationIndices (length terms) sz))
                       (rev [1..<Suc (length terms)])))"

text \<open>
  The index arrays in the order in which the loop of \<open>generateCombinations\<close> takes them:
  for \<open>size\<close> from \<open>n\<close> down to 1, the arrays of \<open>getCombinationIndices(n, size)\<close>.
\<close>

definition combinationIndices :: "nat \<Rightarrow> nat list list" where
  "combinationIndices n = concat (map (getCombinationIndices n) (rev [1..<Suc n]))"

text \<open>
  The order the combinations are meant to come in: \<open>precedes a b\<close> allows \<open>a\<close> before
  \<open>b\<close> when \<open>a\<close> is longer, or as long and not a non-contiguous array before a
  contiguous one.
\<close>

definition precedes :: "nat list \<Rightarrow> nat list \<Rightarrow> bool" where
  "precedes a b =
     (length b < length a \<or> (length b = length a \<and> (isContiguous a \<or> \<not> isContiguous b)))"

text \<open>
  For the proofs: the sublists of \<open>xs\<close> with exactly \<open>k\<close> elements, in lexicographic order
  of their positions.
\<close>

fun ksubs :: "nat \<Rightarrow> 'a list \<Rightarrow> 'a list list" where
  "ksubs 0 xs = [[]]"
| "ksubs (Suc k) [] = []"
| "ksubs (Suc k) (x # xs) = map ((#) x) (ksubs k xs) @ ksubs (Suc k) xs"

section \<open>scoreResults\<close>

text \<open>
  A result record of openFDA, with the three fields the handler's logic reads; a field
  that is missing (or null) is \<open>None\<close>. The source casts each of them to \<open>string\<close>, and
  so does it with the fields it only prints; all of them are strings in the data of
  openFDA.
\<close>

record fda_record =
  r_device_name :: "string option"
  r_definition :: "string option"
  r_product_code :: "string option"

text \<open>\<open>text.includes(s)\<close>: \<open>s\<close> occurs in \<open>text\<close> as a contiguous piece.\<close>

fun startsWith :: "string \<Rightarrow> string \<Rightarrow> bool" where
  "startsWith text [] = True"
| "startsWith [] (c # s) = False"
| "startsWith (d # text) (c # s) = (d = c \<and> startsWith text s)"

fun js_includes :: "string \<Rightarrow> string \<Rightarrow> bool" where
  "js_includes [] s = startsWith [] s"
| "js_includes (d # text) s = (startsWith (d # text) s \<or> js_includes text s)"

text \<open>
  One entry of \<open>coverageMap\<close>: the match strings of an original term. The read
  \<open>SYNONYMS[lower]\<close> is the one of \<open>expandSynonyms\<close>; on an inherited property the test is
  truthy and the call of \<open>flatMap\<close> throws a TypeError.
\<close>

definition matchStrings :: "string \<Rightarrow> js_error + string list" where
  "matchStrings t =
     (let lower = toLowerCase t
      in case SYNONYMS_get lower of
           Own syns \<Rightarrow> Inr (lower # concat (map (\<lambda>s. split_ws (toLowerCase s)) syns))
         | Inherited \<Rightarrow> Inl TypeError
         | Undefined \<Rightarrow> Inr [lower])"

fun coverageMap :: "string list \<Rightarrow> js_error + string list list" where
  "coverageMap [] = Inr []"
| "coverageMap (t # ts) =
     (case matchStrings t of
        Inl e \<Rightarrow> Inl e
      | Inr ms \<Rightarrow> (case coverageMap ts of Inl e \<Rightarrow> Inl e | Inr rest \<Rightarrow> Inr (ms # rest)))"

definition recordText :: "fda_record \<Rightarrow> string" where
  "recordText r =
     (let name = toLowerCase (case r_device_name r of Some s \<Rightarrow> s | None \<Rightarrow> []);
          def = toLowerCase (case r_definition r of Some s \<Rightarrow> s | None \<Rightarrow> [])
      in name @ '' '' @ def)"

definition covered :: "string list list \<Rightarrow> fda_record \<Rightarrow> nat" where
  "covered cm r = length (filter (\<lambda>ms. list_ex (\<lambda>s. js_includes (recordText r) s) ms) cm)"

section \<open>JavaScript numbers\<close>

text \<open>
  The score is a JavaScript number, an IEEE 754 double: every division and every
  addition gives the double nearest to the exact result, a tie going to the even
  significand. The model has a number as the rational it denotes. \<open>roundDouble x\<close> is
  the double nearest to \<open>x\<close>, with a significand of 53 bits, for \<open>x\<close> in the range of the
  normal doubles; the numbers of the score are array lengths, their quotients and sums of
  these, all 0 or far inside that range. \<open>bitLength n\<close> is the number of binary digits
  of a positive integer, and \<open>binaryExponent a\<close> is the \<open>e\<close> with
  \<open>2 ^ e \<le> a < 2 ^ (e + 1)\<close> for a positive \<open>a\<close>.
\<close>

definition roundHalfEven :: "rat \<Rightarrow> int" where
  "roundHalfEven x =
     (let f = \<lfloor>x\<rfloor>; d = x - of_int f
      in if d < 1 / 2 then f else if 1 / 2 < d then f + 1 else if even f then f else f + 1)"

function bitLength :: "int \<Rightarrow> nat" where
  "bitLength n = (if n \<le> 0 then 0 else Suc (bitLength (n div 2)))"
  by pat_completeness auto
termination
  by (relation "measure nat") auto

declare bitLength.simps [simp del]

definition pow2 :: "int \<Rightarrow> rat" where
  "pow2 k = (if 0 \<le> k then 2 ^ nat k else 1 / 2 ^ nat (- k))"

definition binaryExponent :: "rat \<Rightarrow> int" where
  "binaryExponent a =
     (if 1 \<le> a then int (bitLength \<lfloor>a\<rfloor>) - 1
      else let k = int (bitLength \<lfloor>1 / a\<rfloor>) - 1
           in if a = pow2 (- k) then - k else - k - 1)"

definition roundDouble :: "rat \<Rightarrow> rat" where
  "roundDouble x =
     (if x = 0 then 0
      else let a = \<bar>x\<bar>; e = binaryExponent a; s = pow2 (52 - e)
           in sgn x * (of_int (roundHalfEven (a * s)) / s))"

text \<open>\<open>a / b\<close> and \<open>a + b\<close> of two numbers.\<close>

definition js_divide :: "rat \<Rightarrow> rat \<Rightarrow> rat" where
  "js_divide a b = roundDouble (a / b)"

definition js_add :: "rat \<Rightarrow> rat \<Rightarrow> rat" where
  "js_add a b = roundDouble (a + b)"

text \<open>
  \<open>totalScore\<close> is the running sum of the loop over the results,
  \<open>totalScore += covered / coverageMap.length\<close>; the result is
  \<open>totalScore / results.length\<close>. The counts and lengths are integers, which are doubles
  as they stand.
\<close>

fun totalScore :: "string list list \<Rightarrow> fda_record list \<Rightarrow> rat \<Rightarrow> rat" where
  "totalScore cm [] acc = acc"
| "totalScore cm (r # rs) acc =
     totalScore cm rs (js_add acc (js_divide (of_nat (covered cm r)) (of_nat (length cm))))"

definition scoreResults :: "fda_record list \<Rightarrow> string list \<Rightarrow> js_error + rat" where
  "scoreResults results originalTerms =
     (if results = [] \<or> originalTerms = [] then Inr 0
      else case coverageMap originalTerms of
             Inl e \<Rightarrow> Inl e
           | Inr cm \<Rightarrow> Inr (js_divide (totalScore cm results 0) (of_nat (length results))))"

section \<open>The openFDA client as a port\<close>

text \<open>
  \<open>queryOpenFDA(endpoint, searchParts, options)\<close> is the only function that reaches the
  network. A failed fetch, a 429 and every other bad status come back as data with an
  \<open>error\<close> field; a good status comes back as the parsed body. The model takes the
  function as a parameter: \<open>port k req\<close> is the data it returns for the request \<open>req\<close>
  when \<open>k\<close> invocations came before in the same tool call, so a port can answer every
  invocation differently. (A body that cannot be read or parsed makes \<open>queryOpenFDA\<close>
  itself throw; the model has the invocations that return.) The URL returned with the
  data is a function of the request: \<open>requestSearch\<close> below is the text it has after
  \<open>search=\<close>. Every invocation is appended to a log, tagged with the place in the source
  that made it.
\<close>

record request =
  req_endpoint :: string
  req_searchParts :: "string list"
  req_limit :: rat
  req_sort :: "string option"

datatype api_error = ApiError string string

record response =
  resp_error :: "api_error option"
  resp_results :: "fda_record list option"

type_synonym port = "nat \<Rightarrow> request \<Rightarrow> response"

datatype call_site = DirectLookup | BroadeningSearch | Bridge510kSearch | BridgeClassificationLookup

type_synonym call_log = "(call_site \<times> request) list"

definition queryOpenFDA :: "port \<Rightarrow> call_site \<Rightarrow> request \<Rightarrow> call_log \<Rightarrow> response \<times> call_log" where
  "queryOpenFDA port site req lg = (port (length lg) req, lg @ [(site, req)])"

text \<open>\<open>!data.error && data.results && data.results.length > 0\<close>\<close>

definition hasResults :: "response \<Rightarrow> bool" where
  "hasResults data =
     (resp_error data = None \<and>
      (case resp_results data of None \<Rightarrow> False | Some rs \<Rightarrow> rs \<noteq> []))"

definition resultsOf :: "response \<Rightarrow> fda_record list" where
  "resultsOf data = (case resp_results data of None \<Rightarrow> [] | Some rs \<Rightarrow> rs)"

section \<open>Validation and search expressions\<close>

definition isLetter :: "char \<Rightarrow> bool" where
  "isLetter c = (List.member upperLetters c \<or> List.member lowerLetters c)"

definition isDigit :: "char \<Rightarrow> bool" where
  "isDigit c = List.member ''0123456789'' c"

text \<open>\<open>/^[A-Z]{3}$/i\<close>, \<open>/^K\d{6,7}$/i\<close> and \<open>/^P\d{6}$/i\<close>\<close>

definition PRODUCT_CODE_RE :: "string \<Rightarrow> bool" where
  "PRODUCT_CODE_RE s = (length s = 3 \<and> list_all isLetter s)"

definition K_NUMBER_RE :: "string \<Rightarrow> bool" where
  "K_NUMBER_RE s =
     (case s of
        [] \<Rightarrow> False
      | c # ds \<Rightarrow> (c = CHR ''K'' \<or> c = CHR ''k'') \<and> (length ds = 6 \<or> length ds = 7) \<and> list_all isDigit ds)"

definition PMA_NUMBER_RE :: "string \<Rightarrow> bool" where
  "PMA_NUMBER_RE s =
     (case s of
        [] \<Rightarrow> False
      | c # ds \<Rightarrow> (c = CHR ''P'' \<or> c = CHR ''p'') \<and> length ds = 6 \<and> list_all isDigit ds)"

datatype validation_error = LooksLike510k | LooksLikePMA | NotAProductCode

definition validateProductCode :: "string \<Rightarrow> validation_error option" where
  "validateProductCode v =
     (if K_NUMBER_RE v then Some LooksLike510k
      else if PMA_NUMBER_RE v then Some LooksLikePMA
      else if \<not> PRODUCT_CODE_RE v then Some NotAProductCode
      else None)"

definition buildSearchTerms :: "string \<Rightarrow> string \<Rightarrow> string" where
  "buildSearchTerms field query =
     (case split_ws (trim query) of
        [t] \<Rightarrow> field @ '':'' @ t
      | terms \<Rightarrow> join ''+AND+'' (map (\<lambda>t. field @ '':'' @ t) terms))"

datatype device_class = Class1 | Class2 | Class3

fun device_class_text :: "device_class \<Rightarrow> string" where
  "device_class_text Class1 = ''1''"
| "device_class_text Class2 = ''2''"
| "device_class_text Class3 = ''3''"

text \<open>\<open>if (device_class) searchParts.push(`device_class:${device_class}`)\<close>\<close>

definition classParts :: "device_class option \<Rightarrow> string list" where
  "classParts dc = (case dc of None \<Rightarrow> [] | Some c \<Rightarrow> [''device_class:'' @ device_class_text c])"

section \<open>decodeURIComponent\<close>

text \<open>
  Every text the handler returns after an invocation ends with \<open>formatFooter(url)\<close>, whose
  second line is \<open>decodeURIComponent(url)\<close>. That call throws a \<open>URIError\<close> when a
  \<open>%\<close> of the text is not followed by two hexadecimal digits, or when the octets of
  the escapes that follow one another are not the UTF-8 encoding of a code point
  (ECMAScript, Decode). \<open>decodeStep\<close> reads the text one character at a time. The state
  says where in an escape the reading is (\<open>Outside\<close>, after the \<open>%\<close>, after the first
  digit), how many continuation octets the code point still needs, and the range the
  next of them must lie in; \<open>leadOctet\<close> gives these for the first octet of a code
  point.
\<close>

definition hexValue :: "char \<Rightarrow> nat option" where
  "hexValue c =
     map_of (zip ''0123456789abcdefABCDEF''
                 [0, 1, 2, 3, 4, 5, 6, 7, 8, 9, 10, 11, 12, 13, 14, 15, 10, 11, 12, 13, 14, 15]) c"

datatype escape_pos = Outside | AfterPercent | AfterDigit nat

datatype decode_state = Malformed | Reading escape_pos nat nat nat

definition leadOctet :: "nat \<Rightarrow> (nat \<times> nat \<times> nat) option" where
  "leadOctet b =
     (if b < 128 then Some (0, 128, 191)
      else if 194 \<le> b \<and> b \<le> 223 then Some (1, 128, 191)
      else if b = 224 then Some (2, 160, 191)
      else if b = 237 then Some (2, 128, 159)
      else if 225 \<le> b \<and> b \<le> 239 then Some (2, 128, 191)
      else if b = 240 then Some (3, 144, 191)
      else if 241 \<le> b \<and> b \<le> 243 then Some (3, 128, 191)
      else if b = 244 then Some (3, 128, 143)
      else None)"

fun decodeStep :: "decode_state \<Rightarrow> char \<Rightarrow> decode_state" where
  "decodeStep Malformed c = Malformed"
| "decodeStep (Reading Outside need lo hi) c =
     (if c = CHR ''%'' then Reading AfterPercent need lo hi
      else if need = 0 then Reading Outside need lo hi
      else Malformed)"
| "decodeStep (Reading AfterPercent need lo hi) c =
     (case hexValue c of
        None \<Rightarrow> Malformed
      | Some d \<Rightarrow> Reading (AfterDigit d) need lo hi)"
| "decodeStep (Reading (AfterDigit d) need lo hi) c =
     (case hexValue c of
        None \<Rightarrow> Malformed
      | Some d' \<Rightarrow>
          let b = 16 * d + d'
          in if need = 0
             then (case leadOctet b of
                     None \<Rightarrow> Malformed
                   | Some (n, l, h) \<Rightarrow> Reading Outside n l h)
             else if lo \<le> b \<and> b \<le> hi then Reading Outside (need - 1) 128 191
             else Malformed)"

fun decoded :: "decode_state \<Rightarrow> bool" where
  "decoded (Reading Outside need lo hi) = (need = 0)"
| "decoded st = False"

definition uriMalformed :: "string \<Rightarrow> bool" where
  "uriMalformed s = (\<not> decoded (foldl decodeStep (Reading Outside 0 128 191) s))"

text \<open>
  The URLs of the handler are
  \<open>https://api.fda.gov/device/<endpoint>.json?search=<search>&limit=<number>\<close>, with
  \<open>&sort=decision_date:desc\<close> after it in the bridge. \<open>urlText\<close> is this text, for the
  digits of the number. The endpoint, the number and the sort order have no \<open>%\<close>, and
  the character after the search expression is \<open>&\<close>; so the call throws exactly when
  the search expression is malformed (lemma \<open>urlText_malformed\<close>), and \<open>formatFooter\<close>
  takes the search expression of its URL. It returns text or throws.
\<close>

definition urlText :: "string \<Rightarrow> string \<Rightarrow> string \<Rightarrow> string option \<Rightarrow> string" where
  "urlText endpoint search number order =
     ''https://api.fda.gov/device/'' @ endpoint @ ''.json?search='' @ search @ ''&limit='' @ number @
     (case order of None \<Rightarrow> [] | Some s \<Rightarrow> ''&sort='' @ s)"

definition requestSearch :: "request \<Rightarrow> string" where
  "requestSearch req = join ''+AND+'' (req_searchParts req)"

definition formatFooter :: "string \<Rightarrow> js_error + unit" where
  "formatFooter search = (if uriMalformed search then Inl URIError else Inr ())"

section \<open>classify_device: outcomes\<close>

text \<open>
  The handler returns text. The model returns which \<open>return\<close> statement was reached and
  the data that statement renders. Of the rendering (\<open>formatClassificationResults\<close>,
  \<open>formatError\<close>, \<open>formatFooter\<close> and the lines the bridge builds) the model has what
  can keep the statement from returning: the fields it prints are strings or missing, and
  the one call that can throw is the \<open>decodeURIComponent\<close> of \<open>formatFooter\<close>.
  \<open>rendered search out\<close> is the result of a \<open>return\<close> statement that renders \<open>out\<close>
  with the footer of a URL with that search expression.
  \<open>Direct\<close>, \<open>Strong\<close> and \<open>Weak\<close> are the three places that render classification
  results: the product code lookup, the return inside the broadening loop, and the return
  of \<open>bestWeak\<close> after it.
\<close>

record code_info =
  ci_code :: string
  ci_deviceNames :: "string list"
  ci_count :: nat

datatype suggestions = AISuggestions | GeneralSuggestions

datatype outcome =
    MissingInput
  | ValidationFailed validation_error
  | ApiFailure response
  | NoClassification string
  | Direct response
  | Strong response
  | Weak response
  | Bridged "fda_record list" "(string \<times> code_info) list" "fda_record list"
  | Unresolved string suggestions

definition rendered :: "string \<Rightarrow> outcome \<Rightarrow> js_error + outcome" where
  "rendered search out = (case formatFooter search of Inl err \<Rightarrow> Inl err | Inr u \<Rightarrow> Inr out)"

section \<open>classify_device: the broadening loops\<close>

text \<open>The literal \<open>0.4\<close> is the double nearest to four tenths.\<close>

definition RELEVANCE_THRESHOLD :: rat where
  "RELEVANCE_THRESHOLD = roundDouble (4 / 10)"

definition MAX_API_CALLS :: nat where
  "MAX_API_CALLS = 30"

definition FILLER_WORDS :: "string list" where
  "FILLER_WORDS = [
    ''a'', ''an'', ''the'', ''for'', ''of'', ''in'', ''on'', ''to'', ''and'', ''or'', ''is'', ''it'',
    ''what'', ''how'', ''which'', ''my'', ''with'', ''from'', ''that'', ''this'',
    ''fda'', ''class'', ''device'', ''medical'', ''need'', ''does'']"

text \<open>The first two statements of the loop over the term sets.\<close>

definition meaningful :: "string list \<Rightarrow> string list" where
  "meaningful terms =
     filter (\<lambda>t. \<not> List.member FILLER_WORDS (toLowerCase t) \<and> length t > 1) terms"

definition termsToUse :: "string list \<Rightarrow> string list" where
  "termsToUse terms = (if length (meaningful terms) \<ge> 2 then meaningful terms else terms)"

text \<open>\<open>allCombos\<close>, filtered four times and put together again as \<open>combos\<close>.\<close>

definition orderedCombos :: "string list \<Rightarrow> string list list" where
  "orderedCombos ttu =
     (let allCombos = generateCombinations ttu;
          fullLength = filter (\<lambda>c. length c = length ttu) allCombos;
          shortCombos = filter (\<lambda>c. length c \<ge> 2 \<and> length c \<le> 3 \<and> length c < length ttu) allCombos;
          mediumCombos = filter (\<lambda>c. length c > 3 \<and> length c < length ttu) allCombos;
          singles = filter (\<lambda>c. length c = 1) allCombos
      in fullLength @ shortCombos @ mediumCombos @ singles)"

text \<open>
  The variables the loops change: \<open>apiCalls\<close>, \<open>bestWeak\<close> (the data, the search expression
  of its URL and its score) and the log. A loop ends by falling through (\<open>Next\<close>), by the \<open>return\<close> inside it (\<open>Return\<close>), or
  by an exception (\<open>Throw\<close>). A \<open>break\<close> of the loop over the fields falls through to
  the next combination, whose first statement is the same test.
\<close>

record loop_state =
  apiCalls :: nat
  bestWeak :: "(response \<times> string \<times> rat) option"
  calls :: call_log

datatype flow = Next | Return outcome | Throw js_error

record env =
  e_port :: port
  e_device_class :: "device_class option"
  e_resultLimit :: rat
  e_originalTerms :: "string list"

definition broadeningRequest :: "env \<Rightarrow> string list \<Rightarrow> string \<Rightarrow> request" where
  "broadeningRequest e combo field =
     \<lparr>req_endpoint = ''classification'',
      req_searchParts = [buildSearchTerms field (join '' '' combo)] @ classParts (e_device_class e),
      req_limit = e_resultLimit e,
      req_sort = None\<rparr>"

text \<open>
  \<open>searchAttempt\<close> is the body of the loop over the fields after the test of the budget:
  one invocation and what is done with its data. \<open>n\<close> is \<open>termsToUse.length\<close>. The
  \<open>return\<close> renders the data with the URL of the invocation.
\<close>

definition searchAttempt :: "env \<Rightarrow> nat \<Rightarrow> string list \<Rightarrow> string \<Rightarrow> loop_state \<Rightarrow> flow \<times> loop_state" where
  "searchAttempt e n combo field st =
     (let (data, lg') = queryOpenFDA (e_port e) BroadeningSearch (broadeningRequest e combo field) (calls st);
          url = requestSearch (broadeningRequest e combo field);
          st' = st\<lparr>apiCalls := apiCalls st + 1, calls := lg'\<rparr>
      in if hasResults data
         then (case scoreResults (resultsOf data) (e_originalTerms e) of
                 Inl err \<Rightarrow> (Throw err, st')
               | Inr score \<Rightarrow>
                   if length combo \<ge> n \<or> score \<ge> RELEVANCE_THRESHOLD
                   then (case rendered url (Strong data) of
                           Inl err \<Rightarrow> (Throw err, st')
                         | Inr out \<Rightarrow> (Return out, st'))
                   else (Next,
                         (case bestWeak st' of
                            None \<Rightarrow> st'\<lparr>bestWeak := Some (data, url, score)\<rparr>
                          | Some (d, u, best) \<Rightarrow>
                              if score > best then st'\<lparr>bestWeak := Some (data, url, score)\<rparr> else st')))
         else (Next, st'))"

fun fieldLoop :: "env \<Rightarrow> nat \<Rightarrow> string list \<Rightarrow> string list \<Rightarrow> loop_state \<Rightarrow> flow \<times> loop_state" where
  "fieldLoop e n combo [] st = (Next, st)"
| "fieldLoop e n combo (field # fs) st =
     (if apiCalls st \<ge> MAX_API_CALLS then (Next, st)
      else case searchAttempt e n combo field st of
             (Next, st') \<Rightarrow> fieldLoop e n combo fs st'
           | (fl, st') \<Rightarrow> (fl, st'))"

definition searchFields :: "string list" where
  "searchFields = [''device_name'', ''definition'']"

fun comboLoop :: "env \<Rightarrow> nat \<Rightarrow> string list list \<Rightarrow> loop_state \<Rightarrow> flow \<times> loop_state" where
  "comboLoop e n [] st = (Next, st)"
| "comboLoop e n (combo # combos) st =
     (if apiCalls st \<ge> MAX_API_CALLS then (Next, st)
      else case fieldLoop e n combo searchFields st of
             (Next, st') \<Rightarrow> comboLoop e n combos st'
           | (fl, st') \<Rightarrow> (fl, st'))"

fun termSetLoop :: "env \<Rightarrow> string list list \<Rightarrow> loop_state \<Rightarrow> flow \<times> loop_state" where
  "termSetLoop e [] st = (Next, st)"
| "termSetLoop e (terms # termSets) st =
     (case comboLoop e (length (termsToUse terms)) (orderedCombos (termsToUse terms)) st of
        (Next, st') \<Rightarrow> termSetLoop e termSets st'
      | (fl, st') \<Rightarrow> (fl, st'))"

section \<open>bridgeVia510k\<close>

definition GENERIC_510K_TERMS :: "string list" where
  "GENERIC_510K_TERMS = [
    ''artificial'', ''intelligence'', ''machine'', ''learning'', ''software'', ''device'',
    ''system'', ''detection'', ''screening'', ''diagnosis'', ''diagnostic'', ''analysis'',
    ''monitor'', ''automated'', ''computer'', ''digital'', ''algorithm'', ''image'',
    ''processing'', ''aided'', ''based'', ''clinical'', ''decision'', ''support'']"

definition topCombos :: "string list \<Rightarrow> string list list" where
  "topCombos terms =
     (let medicalTerms = filter (\<lambda>t. \<not> List.member GENERIC_510K_TERMS (toLowerCase t)) terms;
          combos = generateCombinations terms;
          pairAndUp = take 8 (filter (\<lambda>c. length c \<ge> 2) combos);
          medicalSingles = map (\<lambda>t. [t]) (filter (\<lambda>t. length t \<ge> 5) medicalTerms)
      in pairAndUp @ medicalSingles)"

text \<open>
  \<open>productCodes\<close> is a \<open>Map\<close>; it keeps its keys in the order of their first insertion,
  which is the order of the later loop over it. The model is an association list in that
  order. \<open>addProductCode\<close> is the body of the loop over the 510(k) results.
\<close>

definition truthyName :: "string option \<Rightarrow> string list" where
  "truthyName name = (case name of None \<Rightarrow> [] | Some s \<Rightarrow> if s = [] then [] else [s])"

definition bumpCode :: "string option \<Rightarrow> code_info \<Rightarrow> code_info" where
  "bumpCode name existing =
     existing\<lparr>ci_count := ci_count existing + 1,
              ci_deviceNames :=
                (case truthyName name of
                   [] \<Rightarrow> ci_deviceNames existing
                 | s # _ \<Rightarrow> if List.member (ci_deviceNames existing) s then ci_deviceNames existing
                            else ci_deviceNames existing @ [s])\<rparr>"

definition addProductCode :: "(string \<times> code_info) list \<Rightarrow> fda_record \<Rightarrow> (string \<times> code_info) list" where
  "addProductCode productCodes r =
     (case r_product_code r of
        None \<Rightarrow> productCodes
      | Some raw \<Rightarrow>
          let pc = toUpperCase raw
          in if pc = [] \<or> \<not> PRODUCT_CODE_RE pc then productCodes
             else (case map_of productCodes pc of
                     Some existing \<Rightarrow>
                       map (\<lambda>(k, v). if k = pc then (k, bumpCode (r_device_name r) v) else (k, v)) productCodes
                   | None \<Rightarrow>
                       productCodes @
                         [(pc, \<lparr>ci_code = pc, ci_deviceNames = truthyName (r_device_name r), ci_count = 1\<rparr>)]))"

definition lookupRequest :: "device_class option \<Rightarrow> string \<Rightarrow> request" where
  "lookupRequest dc pc =
     \<lparr>req_endpoint = ''classification'',
      req_searchParts = [''product_code:'' @ pc] @ classParts dc,
      req_limit = 1,
      req_sort = None\<rparr>"

text \<open>The loop over \<open>productCodes\<close>: the state is \<open>classificationResults\<close> and the log.\<close>

fun lookupLoop :: "port \<Rightarrow> device_class option \<Rightarrow> string list \<Rightarrow> fda_record list \<times> call_log
                     \<Rightarrow> fda_record list \<times> call_log" where
  "lookupLoop port dc [] (classificationResults, lg) = (classificationResults, lg)"
| "lookupLoop port dc (pc # pcs) (classificationResults, lg) =
     (let (classData, lg') = queryOpenFDA port BridgeClassificationLookup (lookupRequest dc pc) lg
      in if hasResults classData
         then lookupLoop port dc pcs (classificationResults @ resultsOf classData, lg')
         else lookupLoop port dc pcs (classificationResults, lg'))"

definition bridgeRequest :: "string list \<Rightarrow> request" where
  "bridgeRequest combo =
     \<lparr>req_endpoint = ''510k'',
      req_searchParts = [buildSearchTerms ''device_name'' (join '' '' combo)],
      req_limit = 20,
      req_sort = Some ''decision_date:desc''\<rparr>"

text \<open>
  \<open>bridgeAttempt\<close> is the body of the loop over \<open>topCombos\<close> after the test of
  \<open>seen510k\<close>: the 510(k) search, the product codes of its results, one classification
  lookup for each key of \<open>productCodes\<close>. \<open>Some\<close> is the \<open>return\<close> inside the loop, which
  renders its lines with the footer of \<open>bridgeUrl\<close>; \<open>None\<close> stands for the three ways to
  go on with the next combination.
\<close>

definition bridgeAttempt :: "port \<Rightarrow> device_class option \<Rightarrow> string list \<Rightarrow> call_log
                               \<Rightarrow> (js_error + outcome) option \<times> call_log" where
  "bridgeAttempt port dc combo lg =
     (let (data, lg') = queryOpenFDA port Bridge510kSearch (bridgeRequest combo) lg
      in if hasResults data
         then
           let productCodes = foldl addProductCode [] (resultsOf data)
           in if productCodes = [] then (None, lg')
              else
                let (classificationResults, lg'') = lookupLoop port dc (map fst productCodes) ([], lg')
                in if classificationResults = [] then (None, lg'')
                   else (Some (rendered (buildSearchTerms ''device_name'' (join '' '' combo))
                                 (Bridged classificationResults productCodes (take 5 (resultsOf data)))),
                         lg'')
         else (None, lg'))"

text \<open>The loop over \<open>topCombos\<close>: the state is \<open>seen510k\<close> and the log.\<close>

fun bridgeComboLoop :: "port \<Rightarrow> device_class option \<Rightarrow> string list list \<Rightarrow> string set \<times> call_log
                         \<Rightarrow> (js_error + outcome) option \<times> string set \<times> call_log" where
  "bridgeComboLoop port dc [] (seen510k, lg) = (None, seen510k, lg)"
| "bridgeComboLoop port dc (combo # combos) (seen510k, lg) =
     (let key = join ''+'' combo
      in if key \<in> seen510k then bridgeComboLoop port dc combos (seen510k, lg)
         else (case bridgeAttempt port dc combo lg of
                 (Some out, lg') \<Rightarrow> (Some out, insert key seen510k, lg')
               | (None, lg') \<Rightarrow> bridgeComboLoop port dc combos (insert key seen510k, lg')))"

fun bridgeTermSetLoop :: "port \<Rightarrow> device_class option \<Rightarrow> string list list \<Rightarrow> string set \<times> call_log
                           \<Rightarrow> (js_error + outcome) option \<times> string set \<times> call_log" where
  "bridgeTermSetLoop port dc [] (seen510k, lg) = (None, seen510k, lg)"
| "bridgeTermSetLoop port dc (terms # termSets) (seen510k, lg) =
     (case bridgeComboLoop port dc (topCombos terms) (seen510k, lg) of
        (Some out, seen', lg') \<Rightarrow> (Some out, seen', lg')
      | (None, seen', lg') \<Rightarrow> bridgeTermSetLoop port dc termSets (seen', lg'))"

definition bridgeVia510k :: "port \<Rightarrow> string list \<Rightarrow> string list \<Rightarrow> device_class option \<Rightarrow> call_log
                               \<Rightarrow> (js_error + outcome) option \<times> call_log" where
  "bridgeVia510k port originalTerms expandedTerms dc lg =
     (case bridgeTermSetLoop port dc [expandedTerms, originalTerms] ({}, lg) of
        (out, seen510k, lg') \<Rightarrow> (out, lg'))"

section \<open>classify_device\<close>

text \<open>
  A string parameter is falsy when it is missing or empty; \<open>orEmpty\<close> reads both as
  the empty string.
\<close>

definition orEmpty :: "string option \<Rightarrow> string" where
  "orEmpty s = (case s of None \<Rightarrow> [] | Some v \<Rightarrow> v)"

definition aiTerms :: "string list" where
  "aiTerms = [''ai'', ''ml'', ''algorithm'', ''machine learning'', ''deep learning'',
              ''artificial intelligence'', ''samd'', ''software'']"

definition isAIQuery :: "string list \<Rightarrow> bool" where
  "isAIQuery originalTerms = list_ex (\<lambda>t. List.member aiTerms (toLowerCase t)) originalTerms"

definition directLookup :: "port \<Rightarrow> string \<Rightarrow> device_class option \<Rightarrow> rat \<Rightarrow> (js_error + outcome) \<times> call_log" where
  "directLookup port product_code dc resultLimit =
     (case validateProductCode product_code of
        Some err \<Rightarrow> (Inr (ValidationFailed err), [])
      | None \<Rightarrow>
          let req = \<lparr>req_endpoint = ''classification'',
                     req_searchParts = [''product_code:'' @ toUpperCase product_code] @ classParts dc,
                     req_limit = resultLimit,
                     req_sort = None\<rparr>;
              (data, lg) = queryOpenFDA port DirectLookup req [];
              url = requestSearch req
          in if resp_error data \<noteq> None then (rendered url (ApiFailure data), lg)
             else if resultsOf data = [] then (rendered url (NoClassification (toUpperCase product_code)), lg)
             else (rendered url (Direct data), lg))"

definition queryTermSets :: "string list \<Rightarrow> string list \<Rightarrow> string list list" where
  "queryTermSets originalTerms expandedTerms =
     (if join '' '' expandedTerms \<noteq> join '' '' originalTerms then [expandedTerms] else [])
     @ [originalTerms]"

text \<open>
  The query path. After the loops: the \<open>return\<close> of \<open>bestWeak\<close> with its URL, what the
  bridge returns, and the last \<open>return\<close>, whose footer has \<open>fallbackUrl\<close>, built from
  \<open>buildSearchTerms("device_name", query)\<close>.
\<close>

definition querySearch :: "port \<Rightarrow> string \<Rightarrow> device_class option \<Rightarrow> rat \<Rightarrow> (js_error + outcome) \<times> call_log" where
  "querySearch port query dc resultLimit =
     (let originalTerms = split_ws (trim query)
      in case expandSynonyms originalTerms of
           Inl err \<Rightarrow> (Inl err, [])
         | Inr expandedTerms \<Rightarrow>
             let e = \<lparr>e_port = port, e_device_class = dc, e_resultLimit = resultLimit,
                      e_originalTerms = originalTerms\<rparr>
             in case termSetLoop e (queryTermSets originalTerms expandedTerms)
                       \<lparr>apiCalls = 0, bestWeak = None, calls = []\<rparr> of
                  (Return out, st) \<Rightarrow> (Inr out, calls st)
                | (Throw err, st) \<Rightarrow> (Inl err, calls st)
                | (Next, st) \<Rightarrow>
                    (case bestWeak st of
                       Some (data, url, score) \<Rightarrow> (rendered url (Weak data), calls st)
                     | None \<Rightarrow>
                         (case bridgeVia510k port originalTerms expandedTerms dc (calls st) of
                            (Some bridgeResult, lg) \<Rightarrow> (bridgeResult, lg)
                          | (None, lg) \<Rightarrow>
                              (rendered (buildSearchTerms ''device_name'' query)
                                 (Unresolved query
                                    (if isAIQuery originalTerms then AISuggestions else GeneralSuggestions)),
                               lg))))"

definition classify_device :: "port \<Rightarrow> string option \<Rightarrow> string option \<Rightarrow> device_class option \<Rightarrow> rat option
                                 \<Rightarrow> (js_error + outcome) \<times> call_log" where
  "classify_device port product_code query device_class limit =
     (let pc = orEmpty product_code;
          q = orEmpty query;
          resultLimit = (case limit of None \<Rightarrow> 10 | Some l \<Rightarrow> l)
      in if pc = [] \<and> q = [] then (Inr MissingInput, [])
         else if pc = [] \<and> PRODUCT_CODE_RE (trim q)
         then directLookup port (toUpperCase (trim q)) device_class resultLimit
         else if pc \<noteq> [] then directLookup port pc device_class resultLimit
         else querySearch port q device_class resultLimit)"

section \<open>Invariants used in the proofs\<close>

text \<open>
  The invariant of the loops of \<open>expandSynonyms\<close>: \<open>seen\<close> holds the lower-case forms of
  the words of \<open>expanded\<close>, and no two of these words have the same lower-case form.
\<close>

definition expandInv :: "expand_state \<Rightarrow> bool" where
  "expandInv st = (snd st = set (map toLowerCase (fst st)) \<and> distinct (map toLowerCase (fst st)))"


section \<open>The plan of the broadening loops\<close>

text \<open>
  The three nested loops of the handler take a fixed list of attempts, one for each term
  set, combination and field, in this order. An attempt is the number of used terms of
  its term set, the combination and the field. \<open>attemptLoop\<close> is one loop over such a
  list with the body and the budget test of the loop over the fields; the nested loops
  are shown to be this loop over \<open>broadeningPlan\<close>.
\<close>

type_synonym attempt = "nat \<times> string list \<times> string"

definition comboAttempts :: "nat \<Rightarrow> string list list \<Rightarrow> attempt list" where
  "comboAttempts n combos = concat (map (\<lambda>combo. map (\<lambda>field. (n, combo, field)) searchFields) combos)"

definition broadeningPlan :: "string list list \<Rightarrow> attempt list" where
  "broadeningPlan termSets =
     concat (map (\<lambda>terms. comboAttempts (length (termsToUse terms)) (orderedCombos (termsToUse terms)))
                 termSets)"

fun attemptLoop :: "env \<Rightarrow> attempt list \<Rightarrow> loop_state \<Rightarrow> flow \<times> loop_state" where
  "attemptLoop e [] st = (Next, st)"
| "attemptLoop e ((n, combo, field) # rest) st =
     (if apiCalls st \<ge> MAX_API_CALLS then (Next, st)
      else case searchAttempt e n combo field st of
             (Next, st') \<Rightarrow> attemptLoop e rest st'
           | (fl, st') \<Rightarrow> (fl, st'))"

text \<open>The entry of the log an attempt leaves.\<close>

definition attemptCall :: "env \<Rightarrow> attempt \<Rightarrow> call_site \<times> request" where
  "attemptCall e a = (BroadeningSearch, broadeningRequest e (fst (snd a)) (snd (snd a)))"

section \<open>The score in the words of the specification\<close>

text \<open>
  The match set of an original term: its lower-case form and, when the synonym table has
  an entry for it, the lower-case words of the replacement phrases. \<open>coveredTerms\<close> counts
  the original terms with a member of their match set in the text of a record, and
  \<open>roundedMean\<close> is the mean over the records of that count divided by the number of
  terms, as double arithmetic gives it: each quotient rounded, the sum taken from the
  left and rounded at each step, the last quotient rounded.
\<close>

definition matchSet :: "string \<Rightarrow> string list" where
  "matchSet t =
     (case map_of SYNONYMS (toLowerCase t) of
        None \<Rightarrow> [toLowerCase t]
      | Some syns \<Rightarrow> toLowerCase t # concat (map (\<lambda>s. split_ws (toLowerCase s)) syns))"

definition coveredTerms :: "string list \<Rightarrow> fda_record \<Rightarrow> nat" where
  "coveredTerms ts r = length (filter (\<lambda>t. list_ex (\<lambda>s. js_includes (recordText r) s) (matchSet t)) ts)"

definition roundedMean :: "fda_record list \<Rightarrow> string list \<Rightarrow> rat" where
  "roundedMean rs ts =
     (if rs = [] \<or> ts = [] then 0
      else js_divide
             (foldl (\<lambda>acc r. js_add acc (js_divide (of_nat (coveredTerms ts r)) (of_nat (length ts)))) 0 rs)
             (of_nat (length rs)))"


section \<open>The bridge in the words of the specification\<close>

text \<open>
  \<open>firstByKey seen combos\<close> keeps, in order, every combination whose text joined with
  \<open>+\<close> is not in \<open>seen\<close> and was not the text of an earlier one. \<open>distinctCodes\<close> are
  the product codes of a result list, in upper case, without the missing and malformed
  ones, each once, in the order of first appearance.
\<close>

fun firstByKey :: "string set \<Rightarrow> string list list \<Rightarrow> string list list" where
  "firstByKey seen [] = []"
| "firstByKey seen (combo # combos) =
     (if join ''+'' combo \<in> seen then firstByKey seen combos
      else combo # firstByKey (insert (join ''+'' combo) seen) combos)"

definition validCodes :: "fda_record list \<Rightarrow> string list" where
  "validCodes rs =
     concat (map (\<lambda>r. case r_product_code r of
                          None \<Rightarrow> []
                        | Some raw \<Rightarrow> if PRODUCT_CODE_RE (toUpperCase raw) then [toUpperCase raw] else [])
                 rs)"

definition distinctCodes :: "fda_record list \<Rightarrow> string list" where
  "distinctCodes rs = rev (remdups (rev (validCodes rs)))"

text \<open>
  \<open>bridgeBlocks port dc k lg\<close> reads a piece of the log that starts at invocation \<open>k\<close>: it
  holds when the piece is a sequence of blocks, each a 510(k) search followed by exactly
  one classification lookup for each distinct code of the data the port returned for that
  search (none when the data has an error or no results).
\<close>

definition bridgeCall :: "string list \<Rightarrow> call_site \<times> request" where
  "bridgeCall combo = (Bridge510kSearch, bridgeRequest combo)"

definition lookupCall :: "device_class option \<Rightarrow> string \<Rightarrow> call_site \<times> request" where
  "lookupCall dc pc = (BridgeClassificationLookup, lookupRequest dc pc)"

definition codesAt :: "port \<Rightarrow> nat \<Rightarrow> request \<Rightarrow> string list" where
  "codesAt port k req = (if hasResults (port k req) then distinctCodes (resultsOf (port k req)) else [])"

function bridgeBlocks :: "port \<Rightarrow> device_class option \<Rightarrow> nat \<Rightarrow> call_log \<Rightarrow> bool" where
  "bridgeBlocks port dc k [] = True"
| "bridgeBlocks port dc k ((site, req) # rest) =
     (let codes = codesAt port k req
      in site = Bridge510kSearch \<and>
         take (length codes) rest = map (lookupCall dc) codes \<and>
         bridgeBlocks port dc (k + 1 + length codes) (drop (length codes) rest))"
  by pat_completeness auto
termination
  by (relation "measure (\<lambda>(port, dc, k, lg). length lg)") auto

text \<open>For the proofs: the keys of \<open>productCodes\<close> after one more code.\<close>

definition addKey :: "string list \<Rightarrow> string \<Rightarrow> string list" where
  "addKey ks c = (if c \<in> set ks then ks else ks @ [c])"

section \<open>Ports used in the examples\<close>

text \<open>A port that answers every invocation with the error of a 429.\<close>

definition rateLimited :: port where
  "rateLimited k req =
     \<lparr>resp_error = Some (ApiError ''429'' ''openFDA rate limit reached (240 req/min). Try again shortly.''),
      resp_results = None\<rparr>"

section \<open>The attempts of a run\<close>

text \<open>
  The environment of the loops for a query, and, for a list of attempts \<open>as\<close> whose first
  one is invocation \<open>k\<close> of the run: the data the port returns for attempt \<open>i\<close>, the search
  expression of its URL, its score against the original terms, and whether it makes the loop return (it has results, and
  the combination has all used terms or the score reaches the threshold).
\<close>

definition queryEnv :: "port \<Rightarrow> string \<Rightarrow> device_class option \<Rightarrow> rat \<Rightarrow> env" where
  "queryEnv port query dc resultLimit =
     \<lparr>e_port = port, e_device_class = dc, e_resultLimit = resultLimit,
      e_originalTerms = split_ws (trim query)\<rparr>"

definition attemptData :: "env \<Rightarrow> nat \<Rightarrow> attempt list \<Rightarrow> nat \<Rightarrow> response" where
  "attemptData e k as i =
     e_port e (k + i) (broadeningRequest e (fst (snd (as ! i))) (snd (snd (as ! i))))"

definition attemptUrl :: "env \<Rightarrow> attempt list \<Rightarrow> nat \<Rightarrow> string" where
  "attemptUrl e as i = requestSearch (broadeningRequest e (fst (snd (as ! i))) (snd (snd (as ! i))))"

definition attemptScore :: "env \<Rightarrow> nat \<Rightarrow> attempt list \<Rightarrow> nat \<Rightarrow> rat" where
  "attemptScore e k as i =
     (case scoreResults (resultsOf (attemptData e k as i)) (e_originalTerms e) of
        Inr score \<Rightarrow> score
      | Inl err \<Rightarrow> 0)"

definition attemptStrong :: "env \<Rightarrow> nat \<Rightarrow> attempt list \<Rightarrow> nat \<Rightarrow> bool" where
  "attemptStrong e k as i =
     (hasResults (attemptData e k as i) \<and>
      (fst (as ! i) \<le> length (fst (snd (as ! i))) \<or> RELEVANCE_THRESHOLD \<le> attemptScore e k as i))"

text \<open>
  \<open>returned\<close> is the way a \<open>return\<close> statement that renders leaves the loops.
\<close>

definition returned :: "js_error + outcome \<Rightarrow> flow" where
  "returned res = (case res of Inl err \<Rightarrow> Throw err | Inr out \<Rightarrow> Return out)"

text \<open>
  For the proofs: \<open>noInherited\<close> says that no term reads an inherited property, and
  \<open>weakAfter e k as b\<close> is \<open>bestWeak\<close> after the attempts \<open>as\<close>, none of which returns, when
  it was \<open>b\<close> before them.
\<close>

definition noInherited :: "string list \<Rightarrow> bool" where
  "noInherited ts = (\<not> list_ex (\<lambda>t. SYNONYMS_get (toLowerCase t) = Inherited) ts)"

fun weakAfter :: "env \<Rightarrow> nat \<Rightarrow> attempt list \<Rightarrow> (response \<times> string \<times> rat) option
                    \<Rightarrow> (response \<times> string \<times> rat) option" where
  "weakAfter e k [] b = b"
| "weakAfter e k (a # as) b =
     weakAfter e (Suc k) as
       (if hasResults (attemptData e k (a # as) 0)
        then (case b of
                None \<Rightarrow> Some (attemptData e k (a # as) 0, attemptUrl e (a # as) 0, attemptScore e k (a # as) 0)
              | Some (d, u, best) \<Rightarrow>
                  if best < attemptScore e k (a # as) 0
                  then Some (attemptData e k (a # as) 0, attemptUrl e (a # as) 0, attemptScore e k (a # as) 0)
                  else Some (d, u, best))
        else b)"

text \<open>
  A port whose second invocation finds one record and whose other invocations find
  nothing.
\<close>

definition secondCallMatches :: port where
  "secondCallMatches k req =
     (if k = 1
      then \<lparr>resp_error = None,
            resp_results = Some [\<lparr>r_device_name = Some ''Pump, Infusion, Insulin'',
                                  r_definition = None, r_product_code = Some ''LZG''\<rparr>]\<rparr>
      else \<lparr>resp_error = None, resp_results = Some []\<rparr>)"

text \<open>
  A port whose third invocation finds five records, which cover none, none, two, three
  and one of the terms \<open>alpha\<close>, \<open>bravo\<close>, \<open>delta\<close>, and whose other invocations find
  nothing.
\<close>

definition thirdCallFindsFive :: port where
  "thirdCallFindsFive k req =
     (if k = 2
      then \<lparr>resp_error = None,
            resp_results = Some
              [\<lparr>r_device_name = Some ''omega'', r_definition = None, r_product_code = None\<rparr>,
               \<lparr>r_device_name = Some ''omega'', r_definition = None, r_product_code = None\<rparr>,
               \<lparr>r_device_name = Some ''alpha bravo'', r_definition = None, r_product_code = None\<rparr>,
               \<lparr>r_device_name = Some ''alpha bravo'', r_definition = Some ''delta'', r_product_code = None\<rparr>,
               \<lparr>r_device_name = Some ''alpha'', r_definition = None, r_product_code = None\<rparr>]\<rparr>
      else \<lparr>resp_error = None, resp_results = Some []\<rparr>)"

text \<open>
  A port for the bridge: every 510(k) search finds two records of one product code, the
  classification lookup of a product code finds one record, and every other
  classification search finds nothing.
\<close>

definition bridgeFinds :: port where
  "bridgeFinds k req =
     (if req_endpoint req = ''510k''
      then \<lparr>resp_error = None,
            resp_results = Some [\<lparr>r_device_name = Some ''Insulin Pump A'', r_definition = None,
                                  r_product_code = Some ''LZG''\<rparr>,
                                 \<lparr>r_device_name = Some ''Insulin Pump B'', r_definition = None,
                                  r_product_code = Some ''lzg''\<rparr>]\<rparr>
      else if startsWith (concat (req_searchParts req)) ''product_code:''
      then \<lparr>resp_error = None,
            resp_results = Some [\<lparr>r_device_name = Some ''Pump, Infusion, Insulin'', r_definition = None,
                                  r_product_code = Some ''LZG''\<rparr>]\<rparr>
      else \<lparr>resp_error = None, resp_results = Some []\<rparr>)"

section \<open>Properties of generateCombinations\<close>

lemma ksubs_upt: "ksubs (Suc k) [start..<n] = concat (map (\<lambda>i. map ((#) i) (ksubs k [Suc i..<n])) [start..<n])"
proof (induction "n - start" arbitrary: start)
  case 0
  then show ?case by simp
next
  case (Suc d)
  then have lt: "start < n" and d: "d = n - Suc start" by auto
  have "[start..<n] = start # [Suc start..<n]" using lt by (simp add: upt_conv_Cons)
  then show ?case using Suc.hyps(1)[OF d] by simp
qed

lemma combine_ksubs:
  "length picked \<le> sz \<Longrightarrow> combine n sz start picked = map ((@) picked) (ksubs (sz - length picked) [start..<n])"
proof (induction n sz start picked rule: combine.induct)
  case (1 n sz start picked)
  show ?case
  proof (cases "length picked = sz")
    case True
    then show ?thesis by (simp add: combine.simps)
  next
    case False
    then obtain k where k: "sz - length picked = Suc k" using "1.prems" by (cases "sz - length picked") auto
    have ih: "combine n sz (Suc i) (picked @ [i]) = map (\<lambda>zs. picked @ i # zs) (ksubs k [Suc i..<n])"
      if "i \<in> set [start..<n]" for i
    proof -
      have "sz - length (picked @ [i]) = k" using k by simp
      moreover have "length (picked @ [i]) \<le> sz" using k by simp
      ultimately show ?thesis using "1.IH"[OF False that] by simp
    qed
    have "combine n sz start picked = concat (map (\<lambda>i. combine n sz (Suc i) (picked @ [i])) [start..<n])"
      using False by (subst combine.simps) simp
    also have "\<dots> = concat (map (\<lambda>i. map (\<lambda>zs. picked @ i # zs) (ksubs k [Suc i..<n])) [start..<n])"
      by (rule arg_cong[where f=concat], rule map_cong[OF refl]) (use ih in simp)
    also have "\<dots> = map ((@) picked) (ksubs (Suc k) [start..<n])"
      by (simp add: ksubs_upt map_concat comp_def)
    finally show ?thesis using k by simp
  qed
qed

lemma length_ksubs: "length (ksubs k xs) = length xs choose k"
  by (induction k xs rule: ksubs.induct) auto

lemma set_ksubs:
  "sorted_wrt (<) xs \<Longrightarrow> set (ksubs k xs) = {ys. sorted_wrt (<) ys \<and> set ys \<subseteq> set xs \<and> length ys = k}"
  for xs :: "nat list"
proof (induction k xs rule: ksubs.induct)
  case (1 xs)
  then show ?case by auto
next
  case (2 k)
  then show ?case by auto
next
  case (3 k x xs)
  then have sx: "sorted_wrt (<) xs" and xlt: "\<forall>y\<in>set xs. x < y" by auto
  note ih1 = "3.IH"(1)[OF sx] and ih2 = "3.IH"(2)[OF sx]
  show ?case
  proof (intro set_eqI iffI)
    fix ys assume "ys \<in> set (ksubs (Suc k) (x # xs))"
    then consider zs where "ys = x # zs" "zs \<in> set (ksubs k xs)" | "ys \<in> set (ksubs (Suc k) xs)"
      by auto
    then show "ys \<in> {ys. sorted_wrt (<) ys \<and> set ys \<subseteq> set (x # xs) \<and> length ys = Suc k}"
    proof cases
      case 1
      then show ?thesis using ih1 xlt by auto
    next
      case 2
      then show ?thesis using ih2 by auto
    qed
  next
    fix ys assume "ys \<in> {ys. sorted_wrt (<) ys \<and> set ys \<subseteq> set (x # xs) \<and> length ys = Suc k}"
    then have s: "sorted_wrt (<) ys" and sub: "set ys \<subseteq> insert x (set xs)" and l: "length ys = Suc k"
      by auto
    from l obtain y zs where ys: "ys = y # zs" by (cases ys) auto
    show "ys \<in> set (ksubs (Suc k) (x # xs))"
    proof (cases "y = x")
      case True
      have "set zs \<subseteq> set xs"
      proof
        fix z assume z: "z \<in> set zs"
        then have "x < z" using s ys True by auto
        moreover have "z \<in> insert x (set xs)" using sub ys z by auto
        ultimately show "z \<in> set xs" by auto
      qed
      then have "zs \<in> set (ksubs k xs)" using ih1 s ys l by auto
      then show ?thesis using ys True by auto
    next
      case False
      then have yin: "y \<in> set xs" using sub ys by auto
      have "set ys \<subseteq> set xs"
      proof
        fix z assume z: "z \<in> set ys"
        then have "y \<le> z" using s ys by auto
        then have "x < z" using yin xlt by auto
        then show "z \<in> set xs" using sub z by auto
      qed
      then have "ys \<in> set (ksubs (Suc k) xs)" using ih2 s l by auto
      then show ?thesis by auto
    qed
  qed
qed

lemma distinct_ksubs: "sorted_wrt (<) xs \<Longrightarrow> distinct (ksubs k xs)" for xs :: "nat list"
proof (induction k xs rule: ksubs.induct)
  case (3 k x xs)
  then have sx: "sorted_wrt (<) xs" and xlt: "\<forall>y\<in>set xs. x < y" by auto
  have "x \<notin> set ys" if "ys \<in> set (ksubs (Suc k) xs)" for ys
    using that set_ksubs[OF sx, of "Suc k"] xlt by auto
  then have "set (map ((#) x) (ksubs k xs)) \<inter> set (ksubs (Suc k) xs) = {}" by fastforce
  moreover have "distinct (map ((#) x) (ksubs k xs))"
    using "3.IH"(1)[OF sx] by (simp add: distinct_map inj_on_def)
  ultimately show ?case using "3.IH"(2)[OF sx] by simp
qed auto


lemma combine_start: "combine n sz 0 [] = ksubs sz [0..<n]"
proof -
  have "(@) [] = (\<lambda>zs::nat list. zs)" by (rule ext) simp
  then show ?thesis using combine_ksubs[of "[]" sz n 0] by simp
qed

lemma set_filter_partition: "set (filter P xs @ filter (\<lambda>x. \<not> P x) xs) = set xs"
  by auto

lemma distinct_filter_partition: "distinct xs \<Longrightarrow> distinct (filter P xs @ filter (\<lambda>x. \<not> P x) xs)"
  by auto

lemma length_filter_partition: "length (filter P xs @ filter (\<lambda>x. \<not> P x) xs) = length xs"
  using sum_length_filter_compl[of P xs] by simp

lemma set_getCombinationIndices:
  "set (getCombinationIndices n sz) = {idx. sorted_wrt (<) idx \<and> set idx \<subseteq> {..<n} \<and> length idx = sz}"
proof -
  have "set (getCombinationIndices n sz) = set (ksubs sz [0..<n])"
    unfolding getCombinationIndices_def Let_def combine_start by (rule set_filter_partition)
  also have "\<dots> = {idx. sorted_wrt (<) idx \<and> set idx \<subseteq> set [0..<n] \<and> length idx = sz}"
    by (rule set_ksubs) (simp add: sorted_wrt_upt)
  also have "set [0..<n] = {..<n}" by auto
  finally show ?thesis .
qed

lemma distinct_getCombinationIndices: "distinct (getCombinationIndices n sz)"
  unfolding getCombinationIndices_def Let_def combine_start
  by (rule distinct_filter_partition, rule distinct_ksubs) (simp add: sorted_wrt_upt)

lemma length_getCombinationIndices: "length (getCombinationIndices n sz) = n choose sz"
  unfolding getCombinationIndices_def Let_def combine_start
  by (simp only: length_filter_partition length_ksubs length_upt diff_zero)


lemma sorted_getCombinationIndices: "sorted_wrt precedes (getCombinationIndices n sz)"
proof -
  let ?cs = "combine n sz 0 []"
  have len: "length c = sz" if "c \<in> set ?cs" for c
    using that set_getCombinationIndices[of n sz]
    by (auto simp: getCombinationIndices_def Let_def)
  have 1: "sorted_wrt precedes (filter isContiguous ?cs)"
    by (rule sorted_wrt_mono_rel[where P = "\<lambda>a b. True"]) (auto simp: precedes_def len)
  have 2: "sorted_wrt precedes (filter (\<lambda>c. \<not> isContiguous c) ?cs)"
    by (rule sorted_wrt_mono_rel[where P = "\<lambda>a b. True"]) (auto simp: precedes_def len)
  show ?thesis
    unfolding getCombinationIndices_def Let_def
    using 1 2 by (auto simp: sorted_wrt_append precedes_def len)
qed

lemma sorted_concat_groups:
  "sorted_wrt (>) szs \<Longrightarrow> sorted_wrt precedes (concat (map (getCombinationIndices n) szs))"
proof (induction szs)
  case Nil
  then show ?case by simp
next
  case (Cons s szs)
  have "precedes a b" if "a \<in> set (getCombinationIndices n s)" "t \<in> set szs" "b \<in> set (getCombinationIndices n t)" for a b t
  proof -
    have "length a = s" "length b = t" using that by (auto simp: set_getCombinationIndices)
    moreover have "t < s" using Cons.prems that(2) by auto
    ultimately show ?thesis by (simp add: precedes_def)
  qed
  then show ?case using Cons by (auto simp: sorted_wrt_append sorted_getCombinationIndices)
qed

lemma sizes_desc: "sorted_wrt (>) (rev [1..<Suc n])"
  by (simp add: sorted_wrt_rev sorted_wrt_upt del: upt_Suc)

lemma sorted_combinationIndices: "sorted_wrt precedes (combinationIndices n)"
  unfolding combinationIndices_def by (rule sorted_concat_groups[OF sizes_desc])

lemma set_combinationIndices:
  "set (combinationIndices n) = {idx. idx \<noteq> [] \<and> sorted_wrt (<) idx \<and> set idx \<subseteq> {..<n}}"
proof -
  have bound: "length idx \<le> n" if "sorted_wrt (<) idx" "set idx \<subseteq> {..<n}" for idx :: "nat list"
  proof -
    have "distinct idx" using that(1) strict_sorted_iff by blast
    then have "length idx = card (set idx)" by (simp add: distinct_card)
    also have "\<dots> \<le> card {..<n}" by (rule card_mono) (use that(2) in auto)
    finally show ?thesis by simp
  qed
  have "set (combinationIndices n) = (\<Union>sz\<in>{1..<Suc n}. set (getCombinationIndices n sz))"
    unfolding combinationIndices_def by (simp del: upt_Suc)
  also have "\<dots> = {idx. idx \<noteq> [] \<and> sorted_wrt (<) idx \<and> set idx \<subseteq> {..<n}}"
  proof (intro set_eqI iffI)
    fix idx assume "idx \<in> (\<Union>sz\<in>{1..<Suc n}. set (getCombinationIndices n sz))"
    then show "idx \<in> {idx. idx \<noteq> [] \<and> sorted_wrt (<) idx \<and> set idx \<subseteq> {..<n}}"
      by (auto simp: set_getCombinationIndices)
  next
    fix idx :: "nat list" assume "idx \<in> {idx. idx \<noteq> [] \<and> sorted_wrt (<) idx \<and> set idx \<subseteq> {..<n}}"
    then have a: "idx \<noteq> []" "sorted_wrt (<) idx" "set idx \<subseteq> {..<n}" by auto
    have "1 \<le> length idx" using a(1) by (cases idx) auto
    moreover have "length idx < Suc n" using bound[OF a(2,3)] by simp
    ultimately have "length idx \<in> {1..<Suc n}" by simp
    moreover have "idx \<in> set (getCombinationIndices n (length idx))"
      using a by (simp add: set_getCombinationIndices)
    ultimately show "idx \<in> (\<Union>sz\<in>{1..<Suc n}. set (getCombinationIndices n sz))" by blast
  qed
  finally show ?thesis .
qed

lemma distinct_combinationIndices: "distinct (combinationIndices n)"
  unfolding combinationIndices_def
proof (rule distinct_concat)
  show "distinct (map (getCombinationIndices n) (rev [1..<Suc n]))"
  proof (simp only: distinct_map, intro conjI)
    show "distinct (rev [1..<Suc n])" by (simp del: upt_Suc)
    show "inj_on (getCombinationIndices n) (set (rev [1..<Suc n]))"
    proof (rule inj_onI)
      fix a b assume a: "a \<in> set (rev [1..<Suc n])" and b: "b \<in> set (rev [1..<Suc n])"
        and eq: "getCombinationIndices n a = getCombinationIndices n b"
      have "[0..<a] \<in> set (getCombinationIndices n a)"
        using a by (auto simp: set_getCombinationIndices sorted_wrt_upt simp del: upt_Suc)
      then have "[0..<a] \<in> set (getCombinationIndices n b)" using eq by simp
      then show "a = b" by (simp add: set_getCombinationIndices)
    qed
  qed
next
  fix ys assume "ys \<in> set (map (getCombinationIndices n) (rev [1..<Suc n]))"
  then show "distinct ys" by (auto simp: distinct_getCombinationIndices simp del: upt_Suc)
next
  fix ys zs assume "ys \<in> set (map (getCombinationIndices n) (rev [1..<Suc n]))"
    "zs \<in> set (map (getCombinationIndices n) (rev [1..<Suc n]))" "ys \<noteq> zs"
  then obtain a b where "ys = getCombinationIndices n a" "zs = getCombinationIndices n b" "a \<noteq> b"
    by (auto simp del: upt_Suc)
  then show "set ys \<inter> set zs = {}" by (auto simp: set_getCombinationIndices)
qed

lemma length_combinationIndices: "length (combinationIndices n) = 2 ^ n - 1"
proof -
  have "length (combinationIndices n) = (\<Sum>sz\<leftarrow>rev [1..<Suc n]. n choose sz)"
    unfolding combinationIndices_def
    by (simp add: length_concat comp_def length_getCombinationIndices del: upt_Suc)
  also have "\<dots> = (\<Sum>sz\<leftarrow>[1..<Suc n]. n choose sz)"
    by (simp add: rev_map[symmetric] sum_list_rev del: upt_Suc)
  also have "\<dots> = (\<Sum>sz = 1..<Suc n. n choose sz)"
    by (simp add: sum_list_distinct_conv_sum_set del: upt_Suc)
  also have "\<dots> = (\<Sum>sz\<le>n. n choose sz) - 1"
  proof -
    have "{..n} = insert 0 {1..<Suc n}" by auto
    then have "(\<Sum>sz\<le>n. n choose sz) = (n choose 0) + (\<Sum>sz = 1..<Suc n. n choose sz)"
      by (simp del: upt_Suc)
    then show ?thesis by simp
  qed
  also have "\<dots> = 2 ^ n - 1" by (simp add: choose_row_sum)
  finally show ?thesis .
qed

lemma generateCombinations_indices:
  "terms \<noteq> [] \<Longrightarrow> generateCombinations terms = map (map ((!) terms)) (combinationIndices (length terms))"
proof (cases "length terms \<le> 1")
  case True
  assume "terms \<noteq> []"
  with True obtain x where t: "terms = [x]" by (cases terms) auto
  have "combinationIndices 1 = [[0]]"
    by (simp add: combinationIndices_def getCombinationIndices_def combine.simps)
  then show ?thesis using t by (simp add: generateCombinations_def)
next
  case False
  then show ?thesis
    by (simp add: generateCombinations_def combinationIndices_def map_concat comp_def del: upt_Suc)
qed

text \<open>
  Claim C2, as the code has it. For every non-empty term sequence of length \<open>n\<close>,
  \<open>generateCombinations\<close> returns the terms at the index arrays of \<open>combinationIndices n\<close>,
  in that order. There are exactly \<open>2 ^ n - 1\<close> of them; no index array occurs twice, and
  the arrays are exactly the non-empty strictly ascending arrays of indices below \<open>n\<close>.
  Their sizes never grow along the list, and among arrays of one size no non-contiguous
  array comes before a contiguous one. For three terms the order is the one the source
  comment gives.
\<close>

theorem generateCombinations_nonempty:
  "terms \<noteq> [] \<Longrightarrow>
     generateCombinations terms = map (map ((!) terms)) (combinationIndices (length terms)) \<and>
     length (generateCombinations terms) = 2 ^ length terms - 1 \<and>
     distinct (combinationIndices (length terms)) \<and>
     set (combinationIndices (length terms)) =
       {idx. idx \<noteq> [] \<and> sorted_wrt (<) idx \<and> set idx \<subseteq> {..<length terms}} \<and>
     sorted_wrt precedes (combinationIndices (length terms)) \<and>
     generateCombinations [a, b, c] = [[a, b, c], [a, b], [b, c], [a, c], [a], [b], [c]]"
proof -
  assume ne: "terms \<noteq> []"
  have ex: "generateCombinations [a, b, c] = [[a, b, c], [a, b], [b, c], [a, c], [a], [b], [c]]"
    by (simp add: generateCombinations_def getCombinationIndices_def combine.simps upt_rec)
  have "length (generateCombinations terms) = 2 ^ length terms - 1"
    by (simp add: generateCombinations_indices[OF ne] length_combinationIndices)
  then show ?thesis
    using generateCombinations_indices[OF ne] distinct_combinationIndices
      set_combinationIndices sorted_combinationIndices ex
    by blast
qed

theorem generateCombinations_nonempty_witness:
  "[''A'', ''B'', ''C''] \<noteq> [] \<and>
   length (generateCombinations [''A'', ''B'', ''C'']) = 7 \<and>
   generateCombinations [''A'', ''B'', ''C''] =
     [[''A'', ''B'', ''C''], [''A'', ''B''], [''B'', ''C''], [''A'', ''C''], [''A''], [''B''], [''C'']]"
proof -
  have ne: "[''A'', ''B'', ''C''] \<noteq> []" by simp
  have len: "(2::nat) ^ length [''A'', ''B'', ''C''] - 1 = 7" by simp
  from generateCombinations_nonempty [OF ne, of "''A''" "''B''" "''C''"]
  show ?thesis unfolding len using ne by blast
qed

text \<open>
  The empty sequence is the exception: \<open>terms.length <= 1\<close> returns \<open>[terms]\<close>, one
  (empty) combination, where \<open>2 ^ 0 - 1\<close> is none.
\<close>

theorem generateCombinations_empty_counterexample:
  "generateCombinations ([] :: string list) = [[]] \<and>
   length (generateCombinations ([] :: string list)) \<noteq> 2 ^ length ([] :: string list) - 1"
  by (simp add: generateCombinations_def)

section \<open>Properties of expandSynonyms\<close>

lemma pushWord_inv: "expandInv st \<Longrightarrow> expandInv (pushWord st w)"
  by (cases st) (auto simp: expandInv_def Let_def)

lemma pushWord_grows: "fst st \<noteq> [] \<Longrightarrow> fst (pushWord st w) \<noteq> []"
  by (cases st) (auto simp: Let_def)

lemma foldl_pushWord_inv: "expandInv st \<Longrightarrow> expandInv (foldl pushWord st ws)"
  by (induction ws arbitrary: st) (auto simp: pushWord_inv)

lemma foldl_pushWord_grows: "fst st \<noteq> [] \<Longrightarrow> fst (foldl pushWord st ws) \<noteq> []"
  by (induction ws arbitrary: st) (auto simp: pushWord_grows)

lemma pushSynonym_inv: "expandInv st \<Longrightarrow> expandInv (pushSynonym st syn)"
  by (simp add: pushSynonym_def foldl_pushWord_inv)

lemma pushSynonym_grows: "fst st \<noteq> [] \<Longrightarrow> fst (pushSynonym st syn) \<noteq> []"
  by (simp add: pushSynonym_def foldl_pushWord_grows)

lemma foldl_pushSynonym_inv: "expandInv st \<Longrightarrow> expandInv (foldl pushSynonym st syns)"
  by (induction syns arbitrary: st) (auto simp: pushSynonym_inv)

lemma foldl_pushSynonym_grows: "fst st \<noteq> [] \<Longrightarrow> fst (foldl pushSynonym st syns) \<noteq> []"
  by (induction syns arbitrary: st) (auto simp: pushSynonym_grows)

lemma splitWs_nonempty: "splitWs skipping cur s \<noteq> []"
  by (induction skipping cur s rule: splitWs.induct) auto

lemma pushSynonym_first: "seen = {} \<Longrightarrow> fst (pushSynonym ([], seen) syn) \<noteq> []"
proof -
  assume s: "seen = {}"
  obtain w ws where w: "split_ws syn = w # ws"
    using splitWs_nonempty[of False "[]" syn] by (cases "split_ws syn") (auto simp: split_ws_def)
  have "fst (pushWord ([], {}) w) \<noteq> []" by (simp add: Let_def)
  then show ?thesis using s w by (simp add: pushSynonym_def foldl_pushWord_grows)
qed

lemma foldl_pushSynonym_first: "syns \<noteq> [] \<Longrightarrow> fst (foldl pushSynonym ([], {}) syns) \<noteq> []"
  by (cases syns) (auto simp: pushSynonym_first foldl_pushSynonym_grows)

lemma SYNONYMS_entries_nonempty: "list_all (\<lambda>(k, syns). syns \<noteq> []) SYNONYMS"
  by (simp add: SYNONYMS_def)

lemma SYNONYMS_get_Own_nonempty: "SYNONYMS_get key = Own syns \<Longrightarrow> syns \<noteq> []"
proof -
  assume "SYNONYMS_get key = Own syns"
  then have "map_of SYNONYMS key = Some syns"
    by (auto simp: SYNONYMS_get_def split: option.splits if_splits)
  then have "(key, syns) \<in> set SYNONYMS" by (rule map_of_SomeD)
  then show ?thesis using SYNONYMS_entries_nonempty by (auto simp: list_all_iff)
qed

lemma expandSynonyms_loop_distinct:
  "expandInv st \<Longrightarrow> expandSynonyms_loop ts st = Inr out \<Longrightarrow> distinct (map toLowerCase out)"
proof (induction ts arbitrary: st)
  case Nil
  then show ?case by (cases st) (auto simp: expandInv_def)
next
  case (Cons t ts)
  obtain expanded seen where st: "st = (expanded, seen)" by (cases st)
  show ?case
  proof (cases "SYNONYMS_get (toLowerCase t)")
    case (Own syns)
    then show ?thesis using Cons st foldl_pushSynonym_inv[of st syns] by (auto simp: Let_def)
  next
    case Inherited
    then show ?thesis using Cons st by (auto simp: Let_def)
  next
    case Undefined
    have "expandInv (expanded @ [t], insert (toLowerCase t) seen)" if "toLowerCase t \<notin> seen"
      using that Cons.prems(1) st by (auto simp: expandInv_def)
    then show ?thesis using Cons st Undefined by (auto simp: Let_def split: if_splits)
  qed
qed

lemma expandSynonyms_loop_grows:
  "fst st \<noteq> [] \<Longrightarrow> expandSynonyms_loop ts st = Inr out \<Longrightarrow> out \<noteq> []"
proof (induction ts arbitrary: st)
  case Nil
  then show ?case by (cases st) auto
next
  case (Cons t ts)
  obtain expanded seen where st: "st = (expanded, seen)" by (cases st)
  show ?case
  proof (cases "SYNONYMS_get (toLowerCase t)")
    case (Own syns)
    then show ?thesis using Cons st foldl_pushSynonym_grows[of st syns] by (auto simp: Let_def)
  next
    case Inherited
    then show ?thesis using Cons st by (auto simp: Let_def)
  next
    case Undefined
    have "out \<noteq> []" if "expandSynonyms_loop ts (expanded @ [t], insert (toLowerCase t) seen) = Inr out"
      using Cons.IH[of "(expanded @ [t], insert (toLowerCase t) seen)"] that by simp
    moreover have "out \<noteq> []" if "expandSynonyms_loop ts (expanded, seen) = Inr out"
      using Cons.IH[of "(expanded, seen)"] that Cons.prems(1) st by simp
    ultimately show ?thesis using Cons.prems(2) st Undefined by (auto simp: Let_def split: if_splits)
  qed
qed

lemma expandSynonyms_loop_throws:
  "(\<exists>err. expandSynonyms_loop ts st = Inl err) = list_ex (\<lambda>t. SYNONYMS_get (toLowerCase t) = Inherited) ts"
proof (induction ts arbitrary: st)
  case Nil
  then show ?case by (cases st) auto
next
  case (Cons t ts)
  obtain expanded seen where st: "st = (expanded, seen)" by (cases st)
  show ?case
    by (cases "SYNONYMS_get (toLowerCase t)") (auto simp: st Let_def Cons.IH)
qed

lemma expandSynonyms_distinct: "expandSynonyms ts = Inr out \<Longrightarrow> distinct (map toLowerCase out)"
  unfolding expandSynonyms_def by (rule expandSynonyms_loop_distinct) (auto simp: expandInv_def)

lemma expandSynonyms_throws:
  "(\<exists>err. expandSynonyms ts = Inl err) = list_ex (\<lambda>t. SYNONYMS_get (toLowerCase t) = Inherited) ts"
  unfolding expandSynonyms_def by (rule expandSynonyms_loop_throws)

lemma expandSynonyms_absent: "SYNONYMS_get (toLowerCase x) = Undefined \<Longrightarrow> expandSynonyms [x] = Inr [x]"
  by (simp add: expandSynonyms_def Let_def)

lemma expandSynonyms_nonempty: "ts \<noteq> [] \<Longrightarrow> expandSynonyms ts = Inr out \<Longrightarrow> out \<noteq> []"
proof -
  assume ne: "ts \<noteq> []" and r: "expandSynonyms ts = Inr out"
  obtain t rest where ts: "ts = t # rest" using ne by (cases ts) auto
  show ?thesis
  proof (cases "SYNONYMS_get (toLowerCase t)")
    case (Own syns)
    then have "fst (foldl pushSynonym ([], {}) syns) \<noteq> []"
      using foldl_pushSynonym_first SYNONYMS_get_Own_nonempty by blast
    moreover have "expandSynonyms_loop rest (foldl pushSynonym ([], {}) syns) = Inr out"
      using r ts Own by (simp add: expandSynonyms_def Let_def)
    ultimately show ?thesis by (rule expandSynonyms_loop_grows)
  next
    case Inherited
    then show ?thesis using r ts by (simp add: expandSynonyms_def Let_def)
  next
    case Undefined
    then have "expandSynonyms_loop rest ([t], {toLowerCase t}) = Inr out"
      using r ts by (simp add: expandSynonyms_def Let_def)
    then show ?thesis using expandSynonyms_loop_grows[of "([t], {toLowerCase t})"] by simp
  qed
qed

text \<open>
  Claim C7. The first half of the claim fails on the code at the term \<open>constructor\<close>: the
  synonym table has no such key, and \<open>SYNONYMS["constructor"]\<close> is the inherited
  \<open>Object.prototype.constructor\<close>, so the loop over it throws instead of returning
  \<open>["constructor"]\<close>. (For a term whose read is \<open>undefined\<close> the claim holds,
  \<open>expandSynonyms_absent\<close>, and the output never has two words that are equal up to
  case, \<open>expandSynonyms_distinct\<close>.)
\<close>

theorem expandSynonyms_constructor_throws:
  "map_of SYNONYMS (toLowerCase ''constructor'') = None \<and>
   expandSynonyms [''constructor''] = Inl TypeError"
  by code_simp

text \<open>
  Claim C10. A non-empty term sequence does not always give a non-empty sequence: with
  the term \<open>__proto__\<close> in it, \<open>expandSynonyms\<close> throws and returns nothing. (Whenever it
  returns, the claim holds: \<open>expandSynonyms_nonempty\<close>.)
\<close>

theorem expandSynonyms_proto_throws:
  "expandSynonyms [''__proto__'', ''pump''] = Inl TypeError \<and>
   (\<forall>out. expandSynonyms [''__proto__'', ''pump''] \<noteq> Inr out)"
proof -
  have "expandSynonyms [''__proto__'', ''pump''] = Inl TypeError" by code_simp
  then show ?thesis by simp
qed

section \<open>Properties of scoreResults\<close>

lemma coverageMap_throws:
  "(\<exists>err. coverageMap ts = Inl err) = list_ex (\<lambda>t. SYNONYMS_get (toLowerCase t) = Inherited) ts"
proof (induction ts)
  case Nil
  then show ?case by simp
next
  case (Cons t ts)
  show ?case
  proof (cases "SYNONYMS_get (toLowerCase t)")
    case (Own syns)
    then show ?thesis using Cons by (auto simp: matchStrings_def Let_def split: sum.splits)
  next
    case Inherited
    then show ?thesis by (auto simp: matchStrings_def Let_def)
  next
    case Undefined
    then show ?thesis using Cons by (auto simp: matchStrings_def Let_def split: sum.splits)
  qed
qed

lemma matchStrings_matchSet: "matchStrings t = Inr ms \<Longrightarrow> ms = matchSet t"
  by (auto simp: matchStrings_def matchSet_def SYNONYMS_get_def Let_def split: option.splits if_splits)

lemma coverageMap_value: "coverageMap ts = Inr cm \<Longrightarrow> cm = map matchSet ts"
proof (induction ts arbitrary: cm)
  case Nil
  then show ?case by simp
next
  case (Cons t ts)
  then show ?case by (auto split: sum.splits dest: matchStrings_matchSet)
qed

lemma covered_map: "covered (map matchSet ts) r = coveredTerms ts r"
  by (simp add: covered_def coveredTerms_def filter_map comp_def)

lemma totalScore_foldl:
  "totalScore cm rs acc =
     foldl (\<lambda>acc r. js_add acc (js_divide (of_nat (covered cm r)) (of_nat (length cm)))) acc rs"
  by (induction rs arbitrary: acc) auto

lemma scoreResults_value:
  "\<not> list_ex (\<lambda>t. SYNONYMS_get (toLowerCase t) = Inherited) ts \<Longrightarrow> scoreResults rs ts = Inr (roundedMean rs ts)"
proof -
  assume a: "\<not> list_ex (\<lambda>t. SYNONYMS_get (toLowerCase t) = Inherited) ts"
  then have "\<not> (\<exists>err. coverageMap ts = Inl err)" using coverageMap_throws[of ts] by blast
  then obtain cm where cm: "coverageMap ts = Inr cm" by (cases "coverageMap ts") auto
  have cm': "cm = map matchSet ts" by (rule coverageMap_value[OF cm])
  show ?thesis
    by (simp add: scoreResults_def roundedMean_def cm cm' totalScore_foldl covered_map)
qed

text \<open>
  The rounding on some numbers whose doubles are known: one tenth, one third, the sum of
  the doubles of one tenth and two tenths, and a power of two, which is a double.
\<close>

lemma roundDouble_examples:
  "roundDouble (1 / 10) = 3602879701896397 / 36028797018963968 \<and>
   roundDouble (1 / 3) = 6004799503160661 / 18014398509481984 \<and>
   js_add (roundDouble (1 / 10)) (roundDouble (2 / 10)) = 1351079888211149 / 4503599627370496 \<and>
   roundDouble (1 / 1024) = 1 / 1024 \<and>
   roundDouble (- (1 / 3)) = - (6004799503160661 / 18014398509481984)"
  by code_simp

text \<open>
  An integer below \<open>2 ^ 53\<close> is a double, and rounding keeps a number on its side of
  such an integer. So the score, when \<open>scoreResults\<close> returns one, lies between 0 and 1,
  and it is 1 when every record covers every term. (An array has fewer than \<open>2 ^ 32\<close>
  elements.)
\<close>

lemma bitLength_lower: "0 < n \<Longrightarrow> 2 ^ (bitLength n - 1) \<le> n"
proof (induction n rule: bitLength.induct)
  case (1 n)
  show ?case
  proof (cases "n div 2 \<le> 0")
    case True
    then have "n = 1" using "1.prems" by auto
    then show ?thesis by (simp add: bitLength.simps)
  next
    case False
    then have "2 ^ (bitLength (n div 2) - 1) \<le> n div 2" using "1.IH" "1.prems" by simp
    moreover have "bitLength (n div 2) \<noteq> 0" using False by (simp add: bitLength.simps[of "n div 2"])
    ultimately have "2 ^ bitLength (n div 2) \<le> 2 * (n div 2)"
      by (cases "bitLength (n div 2)") simp_all
    also have "\<dots> \<le> n" by simp
    finally show ?thesis using "1.prems" by (simp add: bitLength.simps[of n])
  qed
qed

lemma bitLength_le: "n < 2 ^ m \<Longrightarrow> bitLength n \<le> m"
proof (cases "n \<le> 0")
  case True
  then show ?thesis by (simp add: bitLength.simps)
next
  case False
  assume "n < 2 ^ m"
  moreover have "(2::int) ^ (bitLength n - 1) \<le> n" using bitLength_lower[of n] False by simp
  ultimately have "(2::int) ^ (bitLength n - 1) < 2 ^ m" by (rule le_less_trans[rotated])
  then have "bitLength n - 1 < m" by (rule power_less_imp_less_exp[rotated]) simp
  then show ?thesis by simp
qed

lemma binaryExponent_le: "0 < a \<Longrightarrow> a < 2 ^ 53 \<Longrightarrow> binaryExponent a \<le> 52"
proof (cases "1 \<le> a")
  case True
  assume a: "a < 2 ^ 53"
  have "a < of_int (2 ^ 53)" using a by simp
  then have "\<lfloor>a\<rfloor> < 2 ^ 53" by (simp only: floor_less_iff)
  then have "bitLength \<lfloor>a\<rfloor> \<le> 53" by (rule bitLength_le)
  then show ?thesis using True by (simp add: binaryExponent_def)
next
  case False
  then show ?thesis by (simp add: binaryExponent_def Let_def)
qed

lemma roundHalfEven_le: "y \<le> of_int z \<Longrightarrow> roundHalfEven y \<le> z"
proof -
  assume a: "y \<le> of_int z"
  then have f: "\<lfloor>y\<rfloor> \<le> z" by (simp add: floor_le_iff) 
  show ?thesis
  proof (cases "\<lfloor>y\<rfloor> = z")
    case True
    then have "y = of_int \<lfloor>y\<rfloor>" using a by (metis of_int_floor_le order_antisym)
    then show ?thesis using True by (simp add: roundHalfEven_def Let_def)
  next
    case False
    then have "\<lfloor>y\<rfloor> + 1 \<le> z" using f by simp
    then show ?thesis by (simp add: roundHalfEven_def Let_def)
  qed
qed

lemma roundHalfEven_ge: "of_int z \<le> y \<Longrightarrow> z \<le> roundHalfEven y"
proof -
  assume "of_int z \<le> y"
  then have "z \<le> \<lfloor>y\<rfloor>" by (simp add: le_floor_iff)
  then show ?thesis by (simp add: roundHalfEven_def Let_def)
qed

lemma pow2_nat: "0 \<le> k \<Longrightarrow> pow2 k = of_int (2 ^ nat k)"
  by (simp add: pow2_def)

lemma pow2_pos: "0 < pow2 k"
  by (simp add: pow2_def)

lemma roundDouble_nonneg: "0 \<le> x \<Longrightarrow> 0 \<le> roundDouble x"
proof (cases "x = 0")
  case True
  then show ?thesis by (simp add: roundDouble_def)
next
  case False
  assume "0 \<le> x"
  then have x: "0 < x" using False by simp
  let ?s = "pow2 (52 - binaryExponent x)"
  have "of_int 0 \<le> x * ?s" using x pow2_pos[of "52 - binaryExponent x"] by simp
  then have "0 \<le> roundHalfEven (x * ?s)" by (rule roundHalfEven_ge)
  then show ?thesis using x pow2_pos[of "52 - binaryExponent x"]
    by (simp add: roundDouble_def Let_def)
qed

lemma roundDouble_le_nat:
  assumes "0 \<le> x" "x \<le> of_nat n" "n < 2 ^ 53"
  shows "roundDouble x \<le> of_nat n"
proof (cases "x = 0")
  case True
  then show ?thesis by (simp add: roundDouble_def)
next
  case False
  then have x: "0 < x" using assms(1) by simp
  have "x < 2 ^ 53"
  proof -
    have "(of_nat n :: rat) < of_nat (2 ^ 53)" using assms(3) by (simp only: of_nat_less_iff)
    then show ?thesis using assms(2) by simp
  qed
  then have e: "0 \<le> 52 - binaryExponent x" using binaryExponent_le[OF x] by simp
  define N where "N = (2::int) ^ nat (52 - binaryExponent x)"
  have s: "pow2 (52 - binaryExponent x) = of_int N" unfolding N_def by (rule pow2_nat[OF e])
  have N: "0 < N" by (simp add: N_def)
  have "x * of_int N \<le> of_nat n * of_int N" using assms(2) N by simp
  also have "\<dots> = of_int (int n * N)" by simp
  finally have "roundHalfEven (x * of_int N) \<le> int n * N" by (rule roundHalfEven_le)
  then have "(of_int (roundHalfEven (x * of_int N)) :: rat) \<le> of_int (int n * N)" by (simp only: of_int_le_iff)
  then have "(of_int (roundHalfEven (x * of_int N)) :: rat) / of_int N \<le> of_nat n"
    using N by (simp add: divide_le_eq)
  then show ?thesis using x by (simp add: roundDouble_def Let_def s)
qed

lemma roundDouble_ge_nat:
  assumes "of_nat n \<le> x" "x < 2 ^ 53"
  shows "of_nat n \<le> roundDouble x"
proof (cases "x = 0")
  case True
  then show ?thesis using assms by (simp add: roundDouble_def)
next
  case False
  have "(0::rat) \<le> of_nat n" by simp
  then have x: "0 < x" using assms(1) False by linarith
  have e: "0 \<le> 52 - binaryExponent x" using binaryExponent_le[OF x assms(2)] by simp
  define N where "N = (2::int) ^ nat (52 - binaryExponent x)"
  have s: "pow2 (52 - binaryExponent x) = of_int N" unfolding N_def by (rule pow2_nat[OF e])
  have N: "0 < N" by (simp add: N_def)
  have "of_int (int n * N) = of_nat n * (of_int N :: rat)" by simp
  also have "\<dots> \<le> x * of_int N" using assms(1) N by simp
  finally have "int n * N \<le> roundHalfEven (x * of_int N)" by (rule roundHalfEven_ge)
  then have "(of_int (int n * N) :: rat) \<le> of_int (roundHalfEven (x * of_int N))" by (simp only: of_int_le_iff)
  then have "of_nat n \<le> (of_int (roundHalfEven (x * of_int N)) :: rat) / of_int N"
    using N by (simp add: le_divide_eq)
  then show ?thesis using x by (simp add: roundDouble_def Let_def s)
qed

lemma roundDouble_nat: "n < 2 ^ 53 \<Longrightarrow> roundDouble (of_nat n) = of_nat n"
proof -
  assume n: "n < 2 ^ 53"
  have "(of_nat n :: rat) < of_nat (2 ^ 53)" using n by (simp only: of_nat_less_iff)
  then have lt: "(of_nat n :: rat) < 2 ^ 53" by simp
  have "roundDouble (of_nat n) \<le> of_nat n" by (rule roundDouble_le_nat[OF _ _ n]) simp_all
  moreover have "of_nat n \<le> roundDouble (of_nat n)" by (rule roundDouble_ge_nat[OF _ lt]) simp
  ultimately show ?thesis by simp
qed


lemma roundDouble_unit: "0 \<le> x \<Longrightarrow> x \<le> 1 \<Longrightarrow> 0 \<le> roundDouble x \<and> roundDouble x \<le> 1"
  using roundDouble_nonneg[of x] roundDouble_le_nat[of x 1] by simp

lemma covered_le: "covered cm r \<le> length cm"
  by (simp add: covered_def)

lemma quotient_unit:
  "0 \<le> js_divide (of_nat (covered cm r)) (of_nat (length cm)) \<and>
   js_divide (of_nat (covered cm r)) (of_nat (length cm)) \<le> 1"
proof -
  have "(of_nat (covered cm r) :: rat) \<le> of_nat (length cm)" using covered_le[of cm r] by (simp only: of_nat_le_iff)
  then have "(0::rat) \<le> of_nat (covered cm r) / of_nat (length cm) \<and>
             (of_nat (covered cm r) :: rat) / of_nat (length cm) \<le> 1"
    by (cases "length cm = 0") (simp_all add: divide_le_eq)
  then show ?thesis unfolding js_divide_def using roundDouble_unit by blast
qed

lemma totalScore_range:
  "0 \<le> acc \<Longrightarrow> acc \<le> of_nat k \<Longrightarrow> k + length rs < 2 ^ 53 \<Longrightarrow>
     0 \<le> totalScore cm rs acc \<and> totalScore cm rs acc \<le> of_nat (k + length rs)"
proof (induction rs arbitrary: acc k)
  case Nil
  then show ?case by simp
next
  case (Cons r rs)
  let ?q = "js_divide (of_nat (covered cm r)) (of_nat (length cm))"
  have q: "0 \<le> ?q" "?q \<le> 1" using quotient_unit[of cm r] by simp_all
  have k: "Suc k < 2 ^ 53" using Cons.prems(3) by simp
  have 1: "0 \<le> acc + ?q" using Cons.prems(1) q(1) by simp
  have 2: "acc + ?q \<le> of_nat (Suc k)" using Cons.prems(2) q(2) by simp
  have a: "0 \<le> js_add acc ?q" unfolding js_add_def by (rule roundDouble_nonneg[OF 1])
  have b: "js_add acc ?q \<le> of_nat (Suc k)" unfolding js_add_def by (rule roundDouble_le_nat[OF 1 2 k])
  have c: "Suc k + length rs < 2 ^ 53" using Cons.prems(3) by simp
  from Cons.IH[OF a b c] show ?case by simp
qed

lemma scoreResults_range:
  assumes "length rs < 2 ^ 53" "scoreResults rs ts = Inr s"
  shows "0 \<le> s \<and> s \<le> 1"
proof (cases "rs = [] \<or> ts = []")
  case True
  then show ?thesis using assms(2) by (auto simp: scoreResults_def)
next
  case False
  then obtain cm where cm: "coverageMap ts = Inr cm"
    and s: "s = js_divide (totalScore cm rs 0) (of_nat (length rs))"
    using assms(2) by (auto simp: scoreResults_def split: sum.splits)
  have "0 \<le> totalScore cm rs 0 \<and> totalScore cm rs 0 \<le> of_nat (0 + length rs)"
    by (rule totalScore_range) (use assms(1) in simp_all)
  moreover have "0 < length rs" using False by simp
  ultimately have "(0::rat) \<le> totalScore cm rs 0 / of_nat (length rs) \<and>
                   totalScore cm rs 0 / of_nat (length rs) \<le> 1"
    by (simp add: divide_le_eq)
  then show ?thesis unfolding s js_divide_def using roundDouble_unit by blast
qed

lemma roundDouble_one: "roundDouble 1 = 1"
  using roundDouble_nat[of 1] by simp

lemma totalScore_full:
  "(\<forall>r\<in>set rs. covered cm r = length cm) \<Longrightarrow> cm \<noteq> [] \<Longrightarrow> k + length rs < 2 ^ 53 \<Longrightarrow>
     totalScore cm rs (of_nat k) = of_nat (k + length rs)"
proof (induction rs arbitrary: k)
  case Nil
  then show ?case by simp
next
  case (Cons r rs)
  have "covered cm r = length cm" using Cons.prems(1) by simp
  then have q: "js_divide (of_nat (covered cm r)) (of_nat (length cm)) = 1"
    using Cons.prems(2) by (simp add: js_divide_def roundDouble_one)
  have k: "Suc k < 2 ^ 53" using Cons.prems(3) by simp
  have "js_add (of_nat k) 1 = roundDouble (of_nat (Suc k))" by (simp add: js_add_def add.commute)
  also have "\<dots> = of_nat (Suc k)" by (rule roundDouble_nat[OF k])
  finally have a: "js_add (of_nat k) 1 = of_nat (Suc k)" .
  have c: "Suc k + length rs < 2 ^ 53" using Cons.prems(3) by simp
  have "totalScore cm (r # rs) (of_nat k) = totalScore cm rs (of_nat (Suc k))"
    unfolding totalScore.simps q a ..
  also have "\<dots> = of_nat (Suc k + length rs)" by (rule Cons.IH[OF _ Cons.prems(2) c]) (use Cons.prems(1) in simp)
  finally show ?case by simp
qed

lemma scoreResults_full:
  assumes "rs \<noteq> []" "ts \<noteq> []" "length rs < 2 ^ 53"
    and "\<not> list_ex (\<lambda>t. SYNONYMS_get (toLowerCase t) = Inherited) ts"
    and "\<forall>r\<in>set rs. \<forall>t\<in>set ts. list_ex (\<lambda>s. js_includes (recordText r) s) (matchSet t)"
  shows "scoreResults rs ts = Inr 1"
proof -
  have "\<not> (\<exists>err. coverageMap ts = Inl err)" using assms(4) coverageMap_throws[of ts] by blast
  then obtain cm where cm: "coverageMap ts = Inr cm" by (cases "coverageMap ts") auto
  have cm': "cm = map matchSet ts" by (rule coverageMap_value[OF cm])
  have ne: "cm \<noteq> []" using cm' assms(2) by simp
  have cov: "\<forall>r\<in>set rs. covered cm r = length cm"
    using assms(5) by (simp add: cm' covered_map coveredTerms_def)
  have "totalScore cm rs (of_nat 0) = of_nat (0 + length rs)"
    by (rule totalScore_full[OF cov ne]) (use assms(3) in simp)
  then have t: "totalScore cm rs 0 = of_nat (length rs)" by simp
  show ?thesis using assms(1,2) by (simp add: scoreResults_def cm t js_divide_def roundDouble_one)
qed

text \<open>
  Claim C6. With results and an original term \<open>constructor\<close>, \<open>scoreResults\<close> does not
  return the mean coverage: the read \<open>SYNONYMS["constructor"]\<close> is truthy and the call of
  \<open>flatMap\<close> on it throws. (For terms whose read is an entry of the table or \<open>undefined\<close>
  it returns the mean as double arithmetic gives it, a number between 0 and 1, and 1 when
  every record covers every term: \<open>scoreResults_value\<close>, \<open>scoreResults_range\<close>,
  \<open>scoreResults_full\<close>.)
\<close>

theorem scoreResults_constructor_throws:
  "scoreResults [\<lparr>r_device_name = Some ''x'', r_definition = None, r_product_code = None\<rparr>]
                [''constructor''] = Inl TypeError"
  by code_simp

section \<open>Filler words\<close>

text \<open>
  Claim C4, as the code has it. What is removed before the combinations are generated is
  every term that is a filler word or has at most one character, and it is removed if and
  only if at least two other terms remain; otherwise the term sequence is used as it is.
  So every term that is neither a filler word nor a single character is always kept, and a
  sequence that was changed has at least two terms, none of them a filler word or a single
  character.
\<close>

theorem termsToUse_rule:
  "termsToUse terms =
     (if 2 \<le> length (filter (\<lambda>t. \<not> List.member FILLER_WORDS (toLowerCase t) \<and> 1 < length t) terms)
      then filter (\<lambda>t. \<not> List.member FILLER_WORDS (toLowerCase t) \<and> 1 < length t) terms
      else terms) \<and>
   (\<forall>t \<in> set terms. \<not> List.member FILLER_WORDS (toLowerCase t) \<and> 1 < length t
        \<longrightarrow> t \<in> set (termsToUse terms)) \<and>
   (termsToUse terms \<noteq> terms \<longrightarrow>
      2 \<le> length (termsToUse terms) \<and>
      (\<forall>t \<in> set (termsToUse terms). \<not> List.member FILLER_WORDS (toLowerCase t) \<and> 1 < length t))"
  by (auto simp: termsToUse_def meaningful_def)

theorem termsToUse_rule_witness:
  "termsToUse [''the'', ''insulin'', ''pump''] = [''insulin'', ''pump''] \<and>
   ''pump'' \<in> set (termsToUse [''the'', ''insulin'', ''pump''])"
proof -
  have m: "filter (\<lambda>t. \<not> List.member FILLER_WORDS (toLowerCase t) \<and> 1 < length t)
             [''the'', ''insulin'', ''pump''] = [''insulin'', ''pump'']"
    by code_simp
  from termsToUse_rule [of "[''the'', ''insulin'', ''pump'']"]
  show ?thesis unfolding m by simp
qed

text \<open>
  The claim as it is written counts the terms that are not filler words. In
  \<open>x ray the\<close> two such terms remain, and the filler word \<open>the\<close> is not removed, because
  \<open>x\<close> has one character; in \<open>a b ecg pump\<close> the term \<open>b\<close> is removed though it is not a
  filler word.
\<close>

theorem termsToUse_single_character_counterexample:
  "filter (\<lambda>t. \<not> List.member FILLER_WORDS (toLowerCase t)) [''x'', ''ray'', ''the''] = [''x'', ''ray''] \<and>
   termsToUse [''x'', ''ray'', ''the''] = [''x'', ''ray'', ''the''] \<and>
   filter (\<lambda>t. \<not> List.member FILLER_WORDS (toLowerCase t)) [''a'', ''b'', ''ecg'', ''pump'']
     = [''b'', ''ecg'', ''pump''] \<and>
   termsToUse [''a'', ''b'', ''ecg'', ''pump''] = [''ecg'', ''pump'']"
  by code_simp

section \<open>Properties of the footer's decoding\<close>

lemma decode_plain:
  "CHR ''%'' \<notin> set s \<Longrightarrow> foldl decodeStep (Reading Outside 0 lo hi) s = Reading Outside 0 lo hi"
  by (induction s) auto

lemma decode_malformed: "foldl decodeStep Malformed s = Malformed"
  by (induction s) auto

lemma hexValue_ampersand: "hexValue CHR ''&'' = None"
  by code_simp

lemma decode_after_search:
  "CHR ''%'' \<notin> set rest \<Longrightarrow> decoded (foldl decodeStep st (CHR ''&'' # rest)) = decoded st"
proof (cases st)
  case Malformed
  then show ?thesis by (simp add: decode_malformed)
next
  case (Reading pos need lo hi)
  assume r: "CHR ''%'' \<notin> set rest"
  show ?thesis
  proof (cases pos)
    case Outside
    then show ?thesis using Reading r by (cases "need = 0") (simp_all add: decode_plain decode_malformed)
  next
    case AfterPercent
    then show ?thesis using Reading by (simp add: hexValue_ampersand decode_malformed)
  next
    case (AfterDigit d)
    then show ?thesis using Reading by (simp add: hexValue_ampersand decode_malformed)
  qed
qed

text \<open>
  Decoding the whole URL throws exactly when the search expression is malformed: the text
  around it has no \<open>%\<close>, and the \<open>&\<close> after it ends an escape that is not complete.
\<close>

lemma urlText_malformed:
  assumes "CHR ''%'' \<notin> set endpoint" "CHR ''%'' \<notin> set number"
    and "case order of None \<Rightarrow> True | Some s \<Rightarrow> CHR ''%'' \<notin> set s"
  shows "uriMalformed (urlText endpoint search number order) = uriMalformed search"
proof -
  let ?pre = "''https://api.fda.gov/device/'' @ endpoint @ ''.json?search=''"
  let ?rest = "''limit='' @ number @ (case order of None \<Rightarrow> [] | Some s \<Rightarrow> ''&sort='' @ s)"
  have u: "urlText endpoint search number order = ?pre @ search @ (CHR ''&'' # ?rest)"
    by (simp add: urlText_def)
  have p: "CHR ''%'' \<notin> set ?pre" using assms(1) by simp
  have r: "CHR ''%'' \<notin> set ?rest" using assms(2,3) by (cases order) auto
  have "foldl decodeStep (Reading Outside 0 128 191) (?pre @ search @ (CHR ''&'' # ?rest)) =
          foldl decodeStep (foldl decodeStep (foldl decodeStep (Reading Outside 0 128 191) ?pre) search)
                (CHR ''&'' # ?rest)"
    by (simp only: foldl_append)
  also have "\<dots> = foldl decodeStep (foldl decodeStep (Reading Outside 0 128 191) search) (CHR ''&'' # ?rest)"
    by (simp only: decode_plain[OF p])
  finally show ?thesis
    unfolding uriMalformed_def u by (simp only: decode_after_search[OF r])
qed

text \<open>A text without \<open>%\<close> decodes; so does a well-formed escape, and a lone \<open>%\<close> does not.\<close>

lemma plain_decodes: "CHR ''%'' \<notin> set s \<Longrightarrow> \<not> uriMalformed s"
  by (simp add: uriMalformed_def decode_plain)

lemma uriMalformed_examples:
  "uriMalformed ''device_name:50%+AND+device_name:saline'' \<and>
   uriMalformed ''device_name:50%'' \<and>
   \<not> uriMalformed ''device_name:50%25+AND+device_name:saline'' \<and>
   \<not> uriMalformed ''device_name:caf%C3%A9'' \<and>
   uriMalformed ''device_name:caf%C3'' \<and>
   uriMalformed ''device_name:%E0%80%80''"
  by code_simp


section \<open>The broadening loops as one loop over the plan\<close>

lemma attemptLoop_budget: "MAX_API_CALLS \<le> apiCalls st \<Longrightarrow> attemptLoop e as st = (Next, st)"
proof (cases as)
  case Nil
  then show ?thesis by simp
next
  case (Cons a rest)
  assume "MAX_API_CALLS \<le> apiCalls st"
  then show ?thesis using Cons by (cases a) simp
qed

lemma attemptLoop_append:
  "attemptLoop e (as @ bs) st =
     (case attemptLoop e as st of (Next, st') \<Rightarrow> attemptLoop e bs st' | (fl, st') \<Rightarrow> (fl, st'))"
proof (induction as arbitrary: st)
  case Nil
  then show ?case by simp
next
  case (Cons a as)
  obtain n combo field where a: "a = (n, combo, field)" by (cases a)
  show ?case
  proof (cases "MAX_API_CALLS \<le> apiCalls st")
    case True
    then show ?thesis using a by (simp add: attemptLoop_budget)
  next
    case False
    obtain fl st1 where s: "searchAttempt e n combo field st = (fl, st1)"
      by (cases "searchAttempt e n combo field st")
    show ?thesis using False a s Cons.IH[of st1] by (cases fl) simp_all
  qed
qed

lemma fieldLoop_attemptLoop:
  "fieldLoop e n combo fs st = attemptLoop e (map (\<lambda>field. (n, combo, field)) fs) st"
proof (induction fs arbitrary: st)
  case Nil
  then show ?case by simp
next
  case (Cons f fs)
  obtain fl st1 where s: "searchAttempt e n combo f st = (fl, st1)"
    by (cases "searchAttempt e n combo f st")
  show ?case using s Cons.IH[of st1] by (cases fl) simp_all
qed

lemma comboLoop_attemptLoop: "comboLoop e n combos st = attemptLoop e (comboAttempts n combos) st"
proof (induction combos arbitrary: st)
  case Nil
  then show ?case by (simp add: comboAttempts_def)
next
  case (Cons c combos)
  have split: "comboAttempts n (c # combos) = map (\<lambda>field. (n, c, field)) searchFields @ comboAttempts n combos"
    by (simp add: comboAttempts_def)
  show ?case
  proof (cases "MAX_API_CALLS \<le> apiCalls st")
    case True
    then show ?thesis by (simp add: attemptLoop_budget)
  next
    case False
    obtain fl st1 where s: "fieldLoop e n c searchFields st = (fl, st1)"
      by (cases "fieldLoop e n c searchFields st")
    then have s': "attemptLoop e (map (\<lambda>field. (n, c, field)) searchFields) st = (fl, st1)"
      by (simp add: fieldLoop_attemptLoop)
    show ?thesis
      unfolding split attemptLoop_append s'
      using False s Cons.IH[of st1] by (cases fl) simp_all
  qed
qed

lemma termSetLoop_attemptLoop: "termSetLoop e termSets st = attemptLoop e (broadeningPlan termSets) st"
proof (induction termSets arbitrary: st)
  case Nil
  then show ?case by (simp add: broadeningPlan_def)
next
  case (Cons terms termSets)
  let ?as = "comboAttempts (length (termsToUse terms)) (orderedCombos (termsToUse terms))"
  have split: "broadeningPlan (terms # termSets) = ?as @ broadeningPlan termSets"
    by (simp add: broadeningPlan_def)
  obtain fl st1 where s: "comboLoop e (length (termsToUse terms)) (orderedCombos (termsToUse terms)) st = (fl, st1)"
    by (cases "comboLoop e (length (termsToUse terms)) (orderedCombos (termsToUse terms)) st")
  then have s': "attemptLoop e ?as st = (fl, st1)" by (simp add: comboLoop_attemptLoop)
  show ?case
    unfolding split attemptLoop_append s'
    using s Cons.IH[of st1] by (cases fl) simp_all
qed

lemma searchAttempt_effect:
  "searchAttempt e n combo field st = (fl, st') \<Longrightarrow>
     apiCalls st' = apiCalls st + 1 \<and> calls st' = calls st @ [attemptCall e (n, combo, field)]"
  by (auto simp: searchAttempt_def queryOpenFDA_def attemptCall_def Let_def
           split: if_splits sum.splits option.splits prod.splits)

lemma attemptLoop_calls:
  "attemptLoop e as st = (fl, st') \<Longrightarrow>
     \<exists>k. k \<le> length as \<and> apiCalls st + k \<le> max MAX_API_CALLS (apiCalls st) \<and>
         apiCalls st' = apiCalls st + k \<and> calls st' = calls st @ map (attemptCall e) (take k as)"
proof (induction as arbitrary: st)
  case Nil
  then show ?case by auto
next
  case (Cons a as)
  obtain n combo field where a: "a = (n, combo, field)" by (cases a)
  show ?case
  proof (cases "MAX_API_CALLS \<le> apiCalls st")
    case True
    then have "st' = st" using Cons.prems a by simp
    then show ?thesis by (intro exI[of _ 0]) simp
  next
    case False
    obtain fl1 st1 where s: "searchAttempt e n combo field st = (fl1, st1)"
      by (cases "searchAttempt e n combo field st")
    note eff = searchAttempt_effect[OF s]
    show ?thesis
    proof (cases "fl1 = Next")
      case True
      then have "attemptLoop e as st1 = (fl, st')" using Cons.prems a s False by simp
      from Cons.IH[OF this] obtain k where k: "k \<le> length as"
        "apiCalls st1 + k \<le> max MAX_API_CALLS (apiCalls st1)"
        "apiCalls st' = apiCalls st1 + k" "calls st' = calls st1 @ map (attemptCall e) (take k as)"
        by blast
      show ?thesis
        using k eff False a by (intro exI[of _ "Suc k"]) (auto simp: max_def split: if_splits)
    next
      case nn: False
      then have "st' = st1" using Cons.prems a s False by (cases fl1) auto
      then show ?thesis using eff False a by (intro exI[of _ 1]) (auto simp: max_def)
    qed
  qed
qed

section \<open>The log of the bridge\<close>

lemma lookupLoop_log: "snd (lookupLoop port dc pcs (cr, lg)) = lg @ map (lookupCall dc) pcs"
  by (induction pcs arbitrary: cr lg)
     (auto simp: queryOpenFDA_def lookupCall_def Let_def split: prod.splits)

lemma PRODUCT_CODE_RE_nonempty: "PRODUCT_CODE_RE pc \<Longrightarrow> pc \<noteq> []"
  by (auto simp: PRODUCT_CODE_RE_def)

lemma addProductCode_keys:
  "map fst (addProductCode acc r) = foldl addKey (map fst acc) (validCodes [r])"
proof (cases "r_product_code r")
  case None
  then show ?thesis by (simp add: addProductCode_def validCodes_def)
next
  case (Some raw)
  show ?thesis
  proof (cases "PRODUCT_CODE_RE (toUpperCase raw)")
    case False
    then show ?thesis using Some by (simp add: addProductCode_def validCodes_def Let_def)
  next
    case True
    then have ne: "toUpperCase raw \<noteq> []" by (rule PRODUCT_CODE_RE_nonempty)
    show ?thesis
    proof (cases "map_of acc (toUpperCase raw)")
      case None
      then have "toUpperCase raw \<notin> set (map fst acc)" by (simp add: map_of_eq_None_iff)
      then show ?thesis using Some True ne None
        by (simp add: addProductCode_def validCodes_def Let_def addKey_def)
    next
      case (Some existing)
      then have "toUpperCase raw \<in> set (map fst acc)"
        by (metis map_of_eq_None_iff option.distinct(1) set_map)
      then show ?thesis using \<open>r_product_code r = Some raw\<close> True ne Some
        by (auto simp: addProductCode_def validCodes_def Let_def addKey_def split: prod.splits)
    qed
  qed
qed

lemma validCodes_Cons: "validCodes (r # rs) = validCodes [r] @ validCodes rs"
  by (simp add: validCodes_def)

lemma foldl_addProductCode_keys:
  "map fst (foldl addProductCode acc rs) = foldl addKey (map fst acc) (validCodes rs)"
proof (induction rs arbitrary: acc)
  case Nil
  then show ?case by (simp add: validCodes_def)
next
  case (Cons r rs)
  show ?case
    by (subst validCodes_Cons) (simp add: Cons.IH addProductCode_keys)
qed

lemma foldl_addKey_dedup: "foldl addKey [] cs = rev (remdups (rev cs))"
proof (induction cs rule: rev_induct)
  case Nil
  then show ?case by simp
next
  case (snoc c cs)
  then show ?case by (simp add: addKey_def)
qed

lemma productCodes_keys: "map fst (foldl addProductCode [] rs) = distinctCodes rs"
  by (simp add: foldl_addProductCode_keys foldl_addKey_dedup distinctCodes_def)

lemma distinct_distinctCodes: "distinct (distinctCodes rs)"
  by (simp add: distinctCodes_def)

lemma set_distinctCodes: "set (distinctCodes rs) = set (validCodes rs)"
  by (simp add: distinctCodes_def)

lemma bridgeAttempt_log:
  "snd (bridgeAttempt port dc combo lg) =
     lg @ bridgeCall combo # map (lookupCall dc) (codesAt port (length lg) (bridgeRequest combo))"
proof -
  let ?data = "port (length lg) (bridgeRequest combo)"
  let ?lg1 = "lg @ [bridgeCall combo]"
  show ?thesis
  proof (cases "hasResults ?data")
    case False
    then show ?thesis
      by (simp add: bridgeAttempt_def queryOpenFDA_def bridgeCall_def codesAt_def)
  next
    case True
    let ?pcs = "foldl addProductCode [] (resultsOf ?data)"
    show ?thesis
    proof (cases "?pcs = []")
      case e: True
      then have "distinctCodes (resultsOf ?data) = []" using productCodes_keys[of "resultsOf ?data"] by simp
      then show ?thesis using True e
        by (simp add: bridgeAttempt_def queryOpenFDA_def bridgeCall_def codesAt_def)
    next
      case ne: False
      obtain cr lg2 where l: "lookupLoop port dc (map fst ?pcs) ([], ?lg1) = (cr, lg2)"
        by (cases "lookupLoop port dc (map fst ?pcs) ([], ?lg1)")
      have "lg2 = ?lg1 @ map (lookupCall dc) (map fst ?pcs)"
        using lookupLoop_log[of port dc "map fst ?pcs" "[]" ?lg1] l by simp
      then have lg2: "lg2 = ?lg1 @ map (lookupCall dc) (distinctCodes (resultsOf ?data))"
        by (simp only: productCodes_keys)
      show ?thesis using True ne l lg2
        by (simp add: bridgeAttempt_def queryOpenFDA_def bridgeCall_def codesAt_def Let_def)
    qed
  qed
qed

lemma bridgeBlocks_block:
  "bridgeBlocks port dc k (bridgeCall combo # map (lookupCall dc) (codesAt port k (bridgeRequest combo)) @ rest)
     = bridgeBlocks port dc (k + 1 + length (codesAt port k (bridgeRequest combo))) rest"
  by (simp add: bridgeCall_def Let_def)

lemma bridgeBlocks_Cons:
  "bridgeBlocks port dc k ((site, req) # rest) =
     (site = Bridge510kSearch \<and>
      take (length (codesAt port k req)) rest = map (lookupCall dc) (codesAt port k req) \<and>
      bridgeBlocks port dc (k + 1 + length (codesAt port k req)) (drop (length (codesAt port k req)) rest))"
  by (simp add: Let_def)

lemma bridgeBlocks_append:
  "bridgeBlocks port dc k ext1 \<Longrightarrow>
     bridgeBlocks port dc k (ext1 @ ext2) = bridgeBlocks port dc (k + length ext1) ext2"
proof (induction ext1 arbitrary: k rule: length_induct)
  case (1 ext1)
  show ?case
  proof (cases ext1)
    case Nil
    then show ?thesis by simp
  next
    case (Cons a rest)
    obtain site req where a: "a = (site, req)" by (cases a)
    let ?n = "length (codesAt port k req)"
    from "1.prems" have site: "site = Bridge510kSearch"
      and tk: "take ?n rest = map (lookupCall dc) (codesAt port k req)"
      and bb: "bridgeBlocks port dc (k + 1 + ?n) (drop ?n rest)"
      unfolding Cons a bridgeBlocks_Cons by blast+
    have "length (take ?n rest) = ?n" unfolding tk by simp
    then have len: "?n \<le> length rest" by simp
    have shorter: "length (drop ?n rest) < length ext1" unfolding Cons by simp
    have ih: "bridgeBlocks port dc (k + 1 + ?n) (drop ?n rest @ ext2) =
              bridgeBlocks port dc (k + 1 + ?n + length (drop ?n rest)) ext2"
      using "1.IH" shorter bb by blast
    have t2: "take ?n (rest @ ext2) = take ?n rest" using len by simp
    have d2: "drop ?n (rest @ ext2) = drop ?n rest @ ext2" using len by simp
    have k2: "k + 1 + ?n + length (drop ?n rest) = k + length ext1" unfolding Cons using len by simp
    have "bridgeBlocks port dc k (ext1 @ ext2) = bridgeBlocks port dc k ((site, req) # (rest @ ext2))"
      unfolding Cons a by simp
    also have "\<dots> = bridgeBlocks port dc (k + 1 + ?n) (drop ?n rest @ ext2)"
      unfolding bridgeBlocks_Cons t2 d2 using site tk by blast
    also have "\<dots> = bridgeBlocks port dc (k + length ext1) ext2" unfolding ih k2 ..
    finally show ?thesis .
  qed
qed

lemma bridgeBlocks_single:
  "bridgeBlocks port dc k (bridgeCall combo # map (lookupCall dc) (codesAt port k (bridgeRequest combo)))"
  using bridgeBlocks_block[of port dc k combo "[]"] by simp

lemma filter_block:
  "filter (\<lambda>c. fst c = Bridge510kSearch) (bridgeCall combo # map (lookupCall dc) codes) = [bridgeCall combo]"
  by (simp add: bridgeCall_def lookupCall_def filter_empty_conv)

lemma bridgeComboLoop_log:
  "bridgeComboLoop port dc cs (seen, lg) = (out, seen', lg') \<Longrightarrow>
   \<exists>ext k. lg' = lg @ ext \<and> bridgeBlocks port dc (length lg) ext \<and>
      k \<le> length (firstByKey seen cs) \<and>
      filter (\<lambda>c. fst c = Bridge510kSearch) ext = map bridgeCall (take k (firstByKey seen cs)) \<and>
      (out = None \<longrightarrow> k = length (firstByKey seen cs) \<and> seen' = seen \<union> set (map (join ''+'') cs))"
proof (induction cs arbitrary: seen lg)
  case Nil
  then show ?case by (intro exI[of _ "[]"] exI[of _ 0]) auto
next
  case (Cons c cs)
  let ?key = "join ''+'' c"
  show ?case
  proof (cases "?key \<in> seen")
    case True
    then have "bridgeComboLoop port dc cs (seen, lg) = (out, seen', lg')"
      using Cons.prems by (simp add: Let_def)
    from Cons.IH[OF this] obtain ext k where e:
      "lg' = lg @ ext" "bridgeBlocks port dc (length lg) ext" "k \<le> length (firstByKey seen cs)"
      "filter (\<lambda>c. fst c = Bridge510kSearch) ext = map bridgeCall (take k (firstByKey seen cs))"
      "out = None \<longrightarrow> k = length (firstByKey seen cs) \<and> seen' = seen \<union> set (map (join ''+'') cs)"
      by blast
    have fk: "firstByKey seen (c # cs) = firstByKey seen cs" using True by simp
    have su: "seen \<union> set (map (join ''+'') (c # cs)) = seen \<union> set (map (join ''+'') cs)"
      using True by auto
    show ?thesis unfolding fk su using e by blast
  next
    case False
    let ?block = "bridgeCall c # map (lookupCall dc) (codesAt port (length lg) (bridgeRequest c))"
    obtain o1 lg1 where a: "bridgeAttempt port dc c lg = (o1, lg1)"
      by (cases "bridgeAttempt port dc c lg")
    have lg1: "lg1 = lg @ ?block" using bridgeAttempt_log[of port dc c lg] a by simp
    have fk: "firstByKey seen (c # cs) = c # firstByKey (insert ?key seen) cs" using False by simp
    show ?thesis
    proof (cases o1)
      case (Some out1)
      then have r: "out = Some out1" "lg' = lg1" using Cons.prems False a by (simp_all add: Let_def)
      have 1: "lg' = lg @ ?block" using r lg1 by simp
      have 2: "bridgeBlocks port dc (length lg) ?block" by (rule bridgeBlocks_single)
      have 3: "1 \<le> length (firstByKey seen (c # cs))" unfolding fk by simp
      have 4: "filter (\<lambda>c. fst c = Bridge510kSearch) ?block = map bridgeCall (take 1 (firstByKey seen (c # cs)))"
        unfolding fk filter_block by simp
      have 5: "out = None \<longrightarrow> 1 = length (firstByKey seen (c # cs)) \<and>
               seen' = seen \<union> set (map (join ''+'') (c # cs))" using r by simp
      show ?thesis using 1 2 3 4 5 by blast
    next
      case None
      then have "bridgeComboLoop port dc cs (insert ?key seen, lg1) = (out, seen', lg')"
        using Cons.prems False a by (simp add: Let_def)
      from Cons.IH[OF this] obtain ext k where e:
        "lg' = lg1 @ ext" "bridgeBlocks port dc (length lg1) ext"
        "k \<le> length (firstByKey (insert ?key seen) cs)"
        "filter (\<lambda>c. fst c = Bridge510kSearch) ext = map bridgeCall (take k (firstByKey (insert ?key seen) cs))"
        "out = None \<longrightarrow> k = length (firstByKey (insert ?key seen) cs) \<and>
                         seen' = insert ?key seen \<union> set (map (join ''+'') cs)"
        by blast
      have len: "length lg1 = length lg + length ?block" using lg1 by simp
      have 1: "lg' = lg @ (?block @ ext)" using e(1) lg1 by simp
      have 2: "bridgeBlocks port dc (length lg) (?block @ ext)"
        using bridgeBlocks_append[OF bridgeBlocks_single, of port dc "length lg" c ext] e(2)
        unfolding len by simp
      have 3: "Suc k \<le> length (firstByKey seen (c # cs))" unfolding fk using e(3) by simp
      have "filter (\<lambda>c. fst c = Bridge510kSearch) (?block @ ext) =
              [bridgeCall c] @ map bridgeCall (take k (firstByKey (insert ?key seen) cs))"
        unfolding filter_append filter_block e(4) ..
      then have 4: "filter (\<lambda>c. fst c = Bridge510kSearch) (?block @ ext) =
                map bridgeCall (take (Suc k) (firstByKey seen (c # cs)))"
        unfolding fk by simp
      have 5: "out = None \<longrightarrow> Suc k = length (firstByKey seen (c # cs)) \<and>
               seen' = seen \<union> set (map (join ''+'') (c # cs))"
        unfolding fk using e(5) by auto
      show ?thesis using 1 2 3 4 5 by blast
    qed
  qed
qed

lemma firstByKey_append:
  "firstByKey seen (xs @ ys) = firstByKey seen xs @ firstByKey (seen \<union> set (map (join ''+'') xs)) ys"
  by (induction xs arbitrary: seen) (auto simp: insert_absorb)

lemma bridgeTermSetLoop_log:
  "bridgeTermSetLoop port dc tss (seen, lg) = (out, seen', lg') \<Longrightarrow>
   \<exists>ext k. lg' = lg @ ext \<and> bridgeBlocks port dc (length lg) ext \<and>
      k \<le> length (firstByKey seen (concat (map topCombos tss))) \<and>
      filter (\<lambda>c. fst c = Bridge510kSearch) ext =
        map bridgeCall (take k (firstByKey seen (concat (map topCombos tss)))) \<and>
      (out = None \<longrightarrow> k = length (firstByKey seen (concat (map topCombos tss))))"
proof (induction tss arbitrary: seen lg)
  case Nil
  then show ?case by (intro exI[of _ "[]"] exI[of _ 0]) auto
next
  case (Cons terms tss)
  let ?cs1 = "topCombos terms"
  let ?rest = "concat (map topCombos tss)"
  let ?all = "concat (map topCombos (terms # tss))"
  obtain o1 seen1 lg1 where c: "bridgeComboLoop port dc ?cs1 (seen, lg) = (o1, seen1, lg1)"
    by (cases "bridgeComboLoop port dc ?cs1 (seen, lg)") auto
  from bridgeComboLoop_log[OF c] obtain ext1 k1 where e1:
    "lg1 = lg @ ext1" "bridgeBlocks port dc (length lg) ext1" "k1 \<le> length (firstByKey seen ?cs1)"
    "filter (\<lambda>c. fst c = Bridge510kSearch) ext1 = map bridgeCall (take k1 (firstByKey seen ?cs1))"
    "o1 = None \<longrightarrow> k1 = length (firstByKey seen ?cs1) \<and> seen1 = seen \<union> set (map (join ''+'') ?cs1)"
    by blast
  have fa: "firstByKey seen ?all =
            firstByKey seen ?cs1 @ firstByKey (seen \<union> set (map (join ''+'') ?cs1)) ?rest"
    by (simp add: firstByKey_append)
  show ?case
  proof (cases o1)
    case (Some out1)
    then have r: "out = Some out1" "lg' = lg1" using Cons.prems c by auto
    have 1: "lg' = lg @ ext1" using r e1(1) by simp
    have 3: "k1 \<le> length (firstByKey seen ?all)" unfolding fa using e1(3) by simp
    have 4: "filter (\<lambda>c. fst c = Bridge510kSearch) ext1 = map bridgeCall (take k1 (firstByKey seen ?all))"
      unfolding fa using e1(3,4) by simp
    have 5: "out = None \<longrightarrow> k1 = length (firstByKey seen ?all)" using r by simp
    show ?thesis using 1 e1(2) 3 4 5 by blast
  next
    case None
    then have k1: "k1 = length (firstByKey seen ?cs1)" and s1: "seen1 = seen \<union> set (map (join ''+'') ?cs1)"
      using e1(5) by auto
    have "bridgeTermSetLoop port dc tss (seen1, lg1) = (out, seen', lg')"
      using Cons.prems c None by simp
    from Cons.IH[OF this] obtain ext2 k2 where e2:
      "lg' = lg1 @ ext2" "bridgeBlocks port dc (length lg1) ext2"
      "k2 \<le> length (firstByKey seen1 ?rest)"
      "filter (\<lambda>c. fst c = Bridge510kSearch) ext2 = map bridgeCall (take k2 (firstByKey seen1 ?rest))"
      "out = None \<longrightarrow> k2 = length (firstByKey seen1 ?rest)"
      by blast
    have len: "length lg1 = length lg + length ext1" using e1(1) by simp
    have 1: "lg' = lg @ (ext1 @ ext2)" using e1(1) e2(1) by simp
    have 2: "bridgeBlocks port dc (length lg) (ext1 @ ext2)"
      using bridgeBlocks_append[OF e1(2), of ext2] e2(2) unfolding len by simp
    have 3: "k1 + k2 \<le> length (firstByKey seen ?all)" unfolding fa using k1 e2(3) s1 by simp
    have 4: "filter (\<lambda>c. fst c = Bridge510kSearch) (ext1 @ ext2) =
              map bridgeCall (take (k1 + k2) (firstByKey seen ?all))"
      unfolding fa filter_append e1(4) e2(4) using k1 s1 by simp
    have 5: "out = None \<longrightarrow> k1 + k2 = length (firstByKey seen ?all)"
      unfolding fa using k1 s1 e2(5) by simp
    show ?thesis using 1 2 3 4 5 by blast
  qed
qed

section \<open>The query path of classify_device\<close>

lemma bridgeBlocks_sites:
  "bridgeBlocks port dc k ext \<Longrightarrow> c \<in> set ext \<Longrightarrow>
     fst c = Bridge510kSearch \<or> fst c = BridgeClassificationLookup"
proof (induction ext arbitrary: k rule: length_induct)
  case (1 ext)
  show ?case
  proof (cases ext)
    case Nil
    then show ?thesis using "1.prems" by simp
  next
    case (Cons a rest)
    obtain site req where a: "a = (site, req)" by (cases a)
    let ?n = "length (codesAt port k req)"
    from "1.prems"(1) have site: "site = Bridge510kSearch"
      and tk: "take ?n rest = map (lookupCall dc) (codesAt port k req)"
      and bb: "bridgeBlocks port dc (k + 1 + ?n) (drop ?n rest)"
      unfolding Cons a bridgeBlocks_Cons by blast+
    have "set rest = set (take ?n rest) \<union> set (drop ?n rest)"
      by (metis append_take_drop_id set_append)
    then consider "c = a" | "c \<in> set (take ?n rest)" | "c \<in> set (drop ?n rest)"
      using "1.prems"(2) Cons by auto
    then show ?thesis
    proof cases
      case 1
      then show ?thesis using a site by simp
    next
      case 2
      then show ?thesis unfolding tk by (auto simp: lookupCall_def)
    next
      case 3
      have "length (drop ?n rest) < length ext" unfolding Cons by simp
      then show ?thesis using "1.IH" bb 3 by blast
    qed
  qed
qed

lemma bridgeVia510k_log:
  "bridgeVia510k port originalTerms expandedTerms dc lg = (out, lg') \<Longrightarrow>
   \<exists>ext k. lg' = lg @ ext \<and> bridgeBlocks port dc (length lg) ext \<and>
      k \<le> length (firstByKey {} (topCombos expandedTerms @ topCombos originalTerms)) \<and>
      filter (\<lambda>c. fst c = Bridge510kSearch) ext =
        map bridgeCall (take k (firstByKey {} (topCombos expandedTerms @ topCombos originalTerms))) \<and>
      (out = None \<longrightarrow> k = length (firstByKey {} (topCombos expandedTerms @ topCombos originalTerms)))"
proof -
  assume a: "bridgeVia510k port originalTerms expandedTerms dc lg = (out, lg')"
  obtain seen' where "bridgeTermSetLoop port dc [expandedTerms, originalTerms] ({}, lg) = (out, seen', lg')"
    using a by (auto simp: bridgeVia510k_def split: prod.splits)
  from bridgeTermSetLoop_log[OF this] show ?thesis by simp
qed

lemma querySearch_log:
  assumes "expandSynonyms (split_ws (trim query)) = Inr expandedTerms"
  shows "\<exists>k ext. k \<le> MAX_API_CALLS \<and>
           snd (querySearch port query dc resultLimit) =
             map (attemptCall (queryEnv port query dc resultLimit))
                 (take k (broadeningPlan (queryTermSets (split_ws (trim query)) expandedTerms))) @ ext \<and>
           bridgeBlocks port dc k ext"
proof -
  let ?e = "queryEnv port query dc resultLimit"
  let ?ot = "split_ws (trim query)"
  let ?plan = "broadeningPlan (queryTermSets ?ot expandedTerms)"
  let ?st0 = "\<lparr>apiCalls = 0, bestWeak = None, calls = []\<rparr>"
  obtain fl st where l: "termSetLoop ?e (queryTermSets ?ot expandedTerms) ?st0 = (fl, st)"
    by (cases "termSetLoop ?e (queryTermSets ?ot expandedTerms) ?st0")
  then have "attemptLoop ?e ?plan ?st0 = (fl, st)" by (simp add: termSetLoop_attemptLoop)
  from attemptLoop_calls[OF this] obtain k where k: "k \<le> length ?plan" "k \<le> MAX_API_CALLS"
    "apiCalls st = k" "calls st = map (attemptCall ?e) (take k ?plan)"
    by (auto simp: max_def split: if_splits)
  have lenk: "length (calls st) = k" using k(1,4) by simp
  have noext: "\<exists>k ext. k \<le> MAX_API_CALLS \<and> calls st = map (attemptCall ?e) (take k ?plan) @ ext \<and>
                 bridgeBlocks port dc k ext"
    using k by (intro exI[of _ k] exI[of _ "[]"]) simp
  have q: "querySearch port query dc resultLimit =
       (case (fl, st) of
          (Return out, st) \<Rightarrow> (Inr out, calls st)
        | (Throw err, st) \<Rightarrow> (Inl err, calls st)
        | (Next, st) \<Rightarrow>
            (case bestWeak st of
               Some (data, url, score) \<Rightarrow> (rendered url (Weak data), calls st)
             | None \<Rightarrow>
                 (case bridgeVia510k port ?ot expandedTerms dc (calls st) of
                    (Some bridgeResult, lg) \<Rightarrow> (bridgeResult, lg)
                  | (None, lg) \<Rightarrow>
                      (rendered (buildSearchTerms ''device_name'' query)
                         (Unresolved query (if isAIQuery ?ot then AISuggestions else GeneralSuggestions)),
                       lg))))"
    using assms l by (simp add: querySearch_def queryEnv_def Let_def)
  show ?thesis
  proof (cases fl)
    case (Return out)
    then show ?thesis using q noext by simp
  next
    case (Throw err)
    then show ?thesis using q noext by simp
  next
    case Next
    show ?thesis
    proof (cases "bestWeak st")
      case (Some w)
      then show ?thesis using q Next noext by (cases w) (simp split: prod.splits)
    next
      case None
      obtain out lg' where b: "bridgeVia510k port ?ot expandedTerms dc (calls st) = (out, lg')"
        by (cases "bridgeVia510k port ?ot expandedTerms dc (calls st)")
      from bridgeVia510k_log[OF b] obtain ext where e: "lg' = calls st @ ext"
        "bridgeBlocks port dc (length (calls st)) ext" by blast
      have "snd (querySearch port query dc resultLimit) = lg'"
        using q Next None b by (cases out) simp_all
      then show ?thesis using e k lenk by (intro exI[of _ k] exI[of _ ext]) simp
    qed
  qed
qed

lemma querySearch_throws:
  "expandSynonyms (split_ws (trim query)) = Inl err \<Longrightarrow> querySearch port query dc resultLimit = (Inl err, [])"
  by (simp add: querySearch_def)

lemma directLookup_log:
  "snd (directLookup port pc dc resultLimit) = [] \<or>
   (\<exists>req. snd (directLookup port pc dc resultLimit) = [(DirectLookup, req)])"
  by (auto simp: directLookup_def queryOpenFDA_def Let_def split: option.splits)

lemma filter_attemptCalls:
  "filter (\<lambda>c. fst c = BroadeningSearch) (map (attemptCall e) as) = map (attemptCall e) as"
  by (induction as) (auto simp: attemptCall_def)

lemma filter_bridgeBlocks:
  "bridgeBlocks port dc k ext \<Longrightarrow> filter (\<lambda>c. fst c = BroadeningSearch) ext = []"
  using bridgeBlocks_sites by (fastforce simp: filter_empty_conv)

lemma broadening_calls_querySearch:
  "length (filter (\<lambda>c. fst c = BroadeningSearch) (snd (querySearch port query dc resultLimit))) \<le> MAX_API_CALLS"
proof (cases "expandSynonyms (split_ws (trim query))")
  case (Inl err)
  then show ?thesis by (simp add: querySearch_throws)
next
  case (Inr expandedTerms)
  from querySearch_log[OF Inr, of port dc resultLimit] obtain k ext where
    k: "k \<le> MAX_API_CALLS" and
    lg: "snd (querySearch port query dc resultLimit) =
           map (attemptCall (queryEnv port query dc resultLimit))
               (take k (broadeningPlan (queryTermSets (split_ws (trim query)) expandedTerms))) @ ext" and
    bb: "bridgeBlocks port dc k ext" by blast
  show ?thesis
    unfolding lg filter_append filter_attemptCalls filter_bridgeBlocks[OF bb] using k by simp
qed

text \<open>
  Claim C1, as the code has it. For every port and every input, one call of the handler
  makes at most 30 invocations from the broadening loops. The invocations of the bridge
  are not counted by \<open>apiCalls\<close> and not bounded by \<open>MAX_API_CALLS\<close>.
\<close>

theorem broadening_budget:
  "length (filter (\<lambda>c. fst c = BroadeningSearch)
             (snd (classify_device port product_code query device_class limit))) \<le> 30"
proof -
  have d: "filter (\<lambda>c. fst c = BroadeningSearch) (snd (directLookup port pc device_class l)) = []" for pc l
    using directLookup_log[of port pc device_class l] by auto
  show ?thesis
    using broadening_calls_querySearch
    by (auto simp: classify_device_def Let_def d MAX_API_CALLS_def)
qed

theorem broadening_budget_witness:
  "length (filter (\<lambda>c. fst c = BroadeningSearch)
             (snd (classify_device rateLimited None (Some ''alpha bravo delta gamma'') None None))) \<le> 30"
  using broadening_budget [of rateLimited None "Some ''alpha bravo delta gamma''" None None] .

text \<open>
  With four terms and a port that always fails, the broadening loops use their 30
  invocations and the bridge makes 12 more: 42 in one call of the handler.
\<close>

theorem total_calls_counterexample:
  "length (snd (classify_device rateLimited None (Some ''alpha bravo delta gamma'') None None)) = 42 \<and>
   \<not> length (snd (classify_device rateLimited None (Some ''alpha bravo delta gamma'') None None)) \<le> 30"
proof -
  have "length (snd (classify_device rateLimited None (Some ''alpha bravo delta gamma'') None None)) = 42"
    by code_simp
  then show ?thesis by simp
qed

lemma classify_device_query:
  "query \<noteq> [] \<Longrightarrow> \<not> PRODUCT_CODE_RE (trim query) \<Longrightarrow>
     classify_device port None (Some query) dc limit =
       querySearch port query dc (case limit of None \<Rightarrow> 10 | Some l \<Rightarrow> l)"
  by (simp add: classify_device_def orEmpty_def Let_def)

lemma orderedCombos_small:
  "2 \<le> length ttu \<Longrightarrow> length ttu \<le> 4 \<Longrightarrow> orderedCombos ttu = generateCombinations ttu"
proof -
  assume "2 \<le> length ttu" "length ttu \<le> 4"
  then consider a b where "ttu = [a, b]" | a b c where "ttu = [a, b, c]"
    | a b c d where "ttu = [a, b, c, d]"
    by (cases ttu; cases "tl ttu"; cases "tl (tl ttu)"; cases "tl (tl (tl ttu))"; cases "tl (tl (tl (tl ttu)))") auto
  then show ?thesis
  proof cases
    case 1
    then show ?thesis
      by (simp add: orderedCombos_def generateCombinations_def getCombinationIndices_def combine.simps upt_rec)
  next
    case 2
    then show ?thesis
      by (simp add: orderedCombos_def generateCombinations_def getCombinationIndices_def combine.simps upt_rec)
  next
    case 3
    then show ?thesis
      by (simp add: orderedCombos_def generateCombinations_def getCombinationIndices_def combine.simps upt_rec)
  qed
qed


lemma attemptLoop_truncate:
  "attemptLoop e as st = attemptLoop e (take (MAX_API_CALLS - apiCalls st) as) st"
proof (induction as arbitrary: st)
  case Nil
  then show ?case by simp
next
  case (Cons a as)
  obtain n combo field where a: "a = (n, combo, field)" by (cases a)
  show ?case
  proof (cases "MAX_API_CALLS \<le> apiCalls st")
    case True
    then show ?thesis by (simp add: attemptLoop_budget)
  next
    case False
    then obtain m where m: "MAX_API_CALLS - apiCalls st = Suc m" by (cases "MAX_API_CALLS - apiCalls st") auto
    obtain fl st1 where s: "searchAttempt e n combo field st = (fl, st1)"
      by (cases "searchAttempt e n combo field st")
    have "apiCalls st1 = apiCalls st + 1" using searchAttempt_effect[OF s] by simp
    then have m1: "MAX_API_CALLS - apiCalls st1 = m" using m by simp
    show ?thesis
      unfolding m a using False s Cons.IH[of st1] m1 by (cases fl) simp_all
  qed
qed

lemma attemptData_Suc: "attemptData e k (a # as) (Suc i) = attemptData e (Suc k) as i"
  by (simp add: attemptData_def)

lemma attemptUrl_Suc: "attemptUrl e (a # as) (Suc i) = attemptUrl e as i"
  by (simp add: attemptUrl_def)

lemma attemptScore_Suc: "attemptScore e k (a # as) (Suc i) = attemptScore e (Suc k) as i"
  by (simp add: attemptScore_def attemptData_Suc)

lemma attemptStrong_Suc: "attemptStrong e k (a # as) (Suc i) = attemptStrong e (Suc k) as i"
  by (simp add: attemptStrong_def attemptData_Suc attemptScore_Suc)

lemma score_defined:
  "noInherited (e_originalTerms e) \<Longrightarrow>
     scoreResults (resultsOf (attemptData e k as i)) (e_originalTerms e) = Inr (attemptScore e k as i)"
  by (simp add: attemptScore_def noInherited_def scoreResults_value)

lemma searchAttempt_strong:
  assumes "noInherited (e_originalTerms e)" "attemptStrong e (length (calls st)) ((n, combo, field) # as) 0"
  shows "fst (searchAttempt e n combo field st) =
           returned (rendered (attemptUrl e ((n, combo, field) # as) 0)
                              (Strong (attemptData e (length (calls st)) ((n, combo, field) # as) 0)))"
proof -
  let ?A = "(n, combo, field) # as"
  let ?d = "attemptData e (length (calls st)) ?A 0"
  have d: "e_port e (length (calls st)) (broadeningRequest e combo field) = ?d"
    by (simp add: attemptData_def)
  have u: "requestSearch (broadeningRequest e combo field) = attemptUrl e ?A 0"
    by (simp add: attemptUrl_def)
  have sc: "scoreResults (resultsOf ?d) (e_originalTerms e) = Inr (attemptScore e (length (calls st)) ?A 0)"
    by (rule score_defined[OF assms(1)])
  have "hasResults ?d" "n \<le> length combo \<or> RELEVANCE_THRESHOLD \<le> attemptScore e (length (calls st)) ?A 0"
    using assms(2) by (simp_all add: attemptStrong_def)
  then show ?thesis
    by (auto simp: searchAttempt_def queryOpenFDA_def Let_def d sc u returned_def split: sum.splits)
qed

lemma searchAttempt_weak:
  assumes "noInherited (e_originalTerms e)" "\<not> attemptStrong e (length (calls st)) ((n, combo, field) # as) 0"
  shows "\<exists>st'. searchAttempt e n combo field st = (Next, st') \<and>
           length (calls st') = Suc (length (calls st)) \<and> apiCalls st' = Suc (apiCalls st) \<and>
           bestWeak st' =
             (if hasResults (attemptData e (length (calls st)) ((n, combo, field) # as) 0)
              then (case bestWeak st of
                      None \<Rightarrow> Some (attemptData e (length (calls st)) ((n, combo, field) # as) 0,
                                     attemptUrl e ((n, combo, field) # as) 0,
                                     attemptScore e (length (calls st)) ((n, combo, field) # as) 0)
                    | Some (d, u, best) \<Rightarrow>
                        if best < attemptScore e (length (calls st)) ((n, combo, field) # as) 0
                        then Some (attemptData e (length (calls st)) ((n, combo, field) # as) 0,
                                   attemptUrl e ((n, combo, field) # as) 0,
                                   attemptScore e (length (calls st)) ((n, combo, field) # as) 0)
                        else Some (d, u, best))
              else bestWeak st)"
proof -
  let ?A = "(n, combo, field) # as"
  let ?d = "attemptData e (length (calls st)) ?A 0"
  let ?s = "attemptScore e (length (calls st)) ?A 0"
  have d: "e_port e (length (calls st)) (broadeningRequest e combo field) = ?d"
    by (simp add: attemptData_def)
  have sc: "scoreResults (resultsOf ?d) (e_originalTerms e) = Inr ?s"
    by (rule score_defined[OF assms(1)])
  have u: "requestSearch (broadeningRequest e combo field) = attemptUrl e ?A 0"
    by (simp add: attemptUrl_def)
  show ?thesis
  proof (cases "hasResults ?d")
    case False
    then show ?thesis by (simp add: searchAttempt_def queryOpenFDA_def Let_def d)
  next
    case True
    then have ns: "\<not> n \<le> length combo" "\<not> RELEVANCE_THRESHOLD \<le> ?s"
      using assms(2) by (simp_all add: attemptStrong_def)
    show ?thesis
    proof (cases "bestWeak st")
      case None
      then show ?thesis using True ns
        by (simp add: searchAttempt_def queryOpenFDA_def Let_def d sc u)
    next
      case (Some w)
      obtain d0 u0 best where w: "w = (d0, u0, best)" by (cases w)
      show ?thesis using True ns Some w
        by (simp add: searchAttempt_def queryOpenFDA_def Let_def d sc u)
    qed
  qed
qed

lemma attemptLoop_first_strong:
  assumes ni: "noInherited (e_originalTerms e)"
  shows "apiCalls st + length as \<le> MAX_API_CALLS \<Longrightarrow> i < length as \<Longrightarrow>
         attemptStrong e (length (calls st)) as i \<Longrightarrow>
         (\<forall>j<i. \<not> attemptStrong e (length (calls st)) as j) \<Longrightarrow>
         fst (attemptLoop e as st) =
           returned (rendered (attemptUrl e as i) (Strong (attemptData e (length (calls st)) as i)))"
proof (induction as arbitrary: st i)
  case Nil
  then show ?case by simp
next
  case (Cons a as)
  obtain n combo field where a: "a = (n, combo, field)" by (cases a)
  have budget: "\<not> MAX_API_CALLS \<le> apiCalls st" using Cons.prems(1) by simp
  show ?case
  proof (cases i)
    case 0
    then have "fst (searchAttempt e n combo field st) =
                 returned (rendered (attemptUrl e ((n, combo, field) # as) 0)
                                    (Strong (attemptData e (length (calls st)) ((n, combo, field) # as) 0)))"
      using searchAttempt_strong[OF ni] Cons.prems(3) a by simp
    then show ?thesis using budget a 0
      by (cases "searchAttempt e n combo field st")
         (auto simp: returned_def split: sum.splits flow.splits)
  next
    case (Suc i')
    have "\<not> attemptStrong e (length (calls st)) ((n, combo, field) # as) 0"
      using Cons.prems(4) Suc a by auto
    from searchAttempt_weak[OF ni this] obtain st1 where
      s: "searchAttempt e n combo field st = (Next, st1)"
      and l: "length (calls st1) = Suc (length (calls st))" and c: "apiCalls st1 = Suc (apiCalls st)"
      by blast
    have 1: "apiCalls st1 + length as \<le> MAX_API_CALLS" using Cons.prems(1) c by simp
    have 2: "i' < length as" using Cons.prems(2) Suc by simp
    have 3: "attemptStrong e (length (calls st1)) as i'"
      using Cons.prems(3) Suc l by (simp add: attemptStrong_Suc)
    have 4: "\<forall>j<i'. \<not> attemptStrong e (length (calls st1)) as j"
    proof (intro allI impI)
      fix j assume "j < i'"
      then have "\<not> attemptStrong e (length (calls st)) (a # as) (Suc j)" using Cons.prems(4) Suc by simp
      then show "\<not> attemptStrong e (length (calls st1)) as j" using l by (simp add: attemptStrong_Suc)
    qed
    have "fst (attemptLoop e as st1) =
            returned (rendered (attemptUrl e as i') (Strong (attemptData e (length (calls st1)) as i')))"
      by (rule Cons.IH[OF 1 2 3 4])
    then show ?thesis using budget a s Suc l by (simp add: attemptData_Suc attemptUrl_Suc)
  qed
qed

lemma attemptLoop_first_strong_calls:
  assumes ni: "noInherited (e_originalTerms e)"
  shows "apiCalls st + length as \<le> MAX_API_CALLS \<Longrightarrow> i < length as \<Longrightarrow>
         attemptStrong e (length (calls st)) as i \<Longrightarrow>
         (\<forall>j<i. \<not> attemptStrong e (length (calls st)) as j) \<Longrightarrow>
         calls (snd (attemptLoop e as st)) = calls st @ map (attemptCall e) (take (Suc i) as)"
proof (induction as arbitrary: st i)
  case Nil
  then show ?case by simp
next
  case (Cons a as)
  obtain n combo field where a: "a = (n, combo, field)" by (cases a)
  have budget: "\<not> MAX_API_CALLS \<le> apiCalls st" using Cons.prems(1) by simp
  obtain fl st1 where s: "searchAttempt e n combo field st = (fl, st1)"
    by (cases "searchAttempt e n combo field st")
  have cs: "calls st1 = calls st @ [attemptCall e a]" using searchAttempt_effect[OF s] a by simp
  show ?case
  proof (cases i)
    case 0
    then have "fst (searchAttempt e n combo field st) =
                 returned (rendered (attemptUrl e ((n, combo, field) # as) 0)
                                    (Strong (attemptData e (length (calls st)) ((n, combo, field) # as) 0)))"
      using searchAttempt_strong[OF ni] Cons.prems(3) a by simp
    then have "attemptLoop e (a # as) st = (fl, st1)" using budget a s
      by (cases fl) (auto simp: returned_def split: sum.splits)
    then show ?thesis using cs 0 by simp
  next
    case (Suc i')
    have "\<not> attemptStrong e (length (calls st)) ((n, combo, field) # as) 0"
      using Cons.prems(4) Suc a by auto
    from searchAttempt_weak[OF ni this] have fl: "fl = Next"
      and l: "length (calls st1) = Suc (length (calls st))" and c: "apiCalls st1 = Suc (apiCalls st)"
      using s by auto
    have 1: "apiCalls st1 + length as \<le> MAX_API_CALLS" using Cons.prems(1) c by simp
    have 2: "i' < length as" using Cons.prems(2) Suc by simp
    have 3: "attemptStrong e (length (calls st1)) as i'"
      using Cons.prems(3) Suc l by (simp add: attemptStrong_Suc)
    have 4: "\<forall>j<i'. \<not> attemptStrong e (length (calls st1)) as j"
    proof (intro allI impI)
      fix j assume "j < i'"
      then have "\<not> attemptStrong e (length (calls st)) (a # as) (Suc j)" using Cons.prems(4) Suc by simp
      then show "\<not> attemptStrong e (length (calls st1)) as j" using l by (simp add: attemptStrong_Suc)
    qed
    have "attemptLoop e (a # as) st = attemptLoop e as st1" using budget a s fl by simp
    then show ?thesis using Cons.IH[OF 1 2 3 4] cs Suc by simp
  qed
qed

lemma attemptLoop_no_strong:
  assumes ni: "noInherited (e_originalTerms e)"
  shows "apiCalls st + length as \<le> MAX_API_CALLS \<Longrightarrow>
         (\<forall>j<length as. \<not> attemptStrong e (length (calls st)) as j) \<Longrightarrow>
         \<exists>st'. attemptLoop e as st = (Next, st') \<and>
               bestWeak st' = weakAfter e (length (calls st)) as (bestWeak st)"
proof (induction as arbitrary: st)
  case Nil
  then show ?case by simp
next
  case (Cons a as)
  obtain n combo field where a: "a = (n, combo, field)" by (cases a)
  have budget: "\<not> MAX_API_CALLS \<le> apiCalls st" using Cons.prems(1) by simp
  have "\<not> attemptStrong e (length (calls st)) ((n, combo, field) # as) 0"
    using Cons.prems(2) a by auto
  from searchAttempt_weak[OF ni this] obtain st1 where
    s: "searchAttempt e n combo field st = (Next, st1)"
    and l: "length (calls st1) = Suc (length (calls st))" and c: "apiCalls st1 = Suc (apiCalls st)"
    and b: "bestWeak st1 =
             (if hasResults (attemptData e (length (calls st)) ((n, combo, field) # as) 0)
              then (case bestWeak st of
                      None \<Rightarrow> Some (attemptData e (length (calls st)) ((n, combo, field) # as) 0,
                                     attemptUrl e ((n, combo, field) # as) 0,
                                     attemptScore e (length (calls st)) ((n, combo, field) # as) 0)
                    | Some (d, u, best) \<Rightarrow>
                        if best < attemptScore e (length (calls st)) ((n, combo, field) # as) 0
                        then Some (attemptData e (length (calls st)) ((n, combo, field) # as) 0,
                                   attemptUrl e ((n, combo, field) # as) 0,
                                   attemptScore e (length (calls st)) ((n, combo, field) # as) 0)
                        else Some (d, u, best))
              else bestWeak st)"
    by blast
  have 1: "apiCalls st1 + length as \<le> MAX_API_CALLS" using Cons.prems(1) c by simp
  have 2: "\<forall>j<length as. \<not> attemptStrong e (length (calls st1)) as j"
  proof (intro allI impI)
    fix j assume "j < length as"
    then have "\<not> attemptStrong e (length (calls st)) (a # as) (Suc j)" using Cons.prems(2) by simp
    then show "\<not> attemptStrong e (length (calls st1)) as j" using l by (simp add: attemptStrong_Suc)
  qed
  from Cons.IH[OF 1 2] obtain st' where
    r: "attemptLoop e as st1 = (Next, st')"
       "bestWeak st' = weakAfter e (length (calls st1)) as (bestWeak st1)" by blast
  have "attemptLoop e (a # as) st = (Next, st')" using budget a s r(1) by simp
  moreover have "bestWeak st' = weakAfter e (length (calls st)) (a # as) (bestWeak st)"
    unfolding r(2) l b a by simp
  ultimately show ?case by blast
qed

lemma weakAfter_keep:
  "(\<forall>j<length as. hasResults (attemptData e k as j) \<longrightarrow> attemptScore e k as j \<le> s) \<Longrightarrow>
     weakAfter e k as (Some (d, u, s)) = Some (d, u, s)"
proof (induction as arbitrary: k)
  case Nil
  then show ?case by simp
next
  case (Cons a as)
  have 0: "hasResults (attemptData e k (a # as) 0) \<longrightarrow> attemptScore e k (a # as) 0 \<le> s"
    using Cons.prems by auto
  have "\<forall>j<length as. hasResults (attemptData e (Suc k) as j) \<longrightarrow> attemptScore e (Suc k) as j \<le> s"
  proof (intro allI impI)
    fix j assume "j < length as" "hasResults (attemptData e (Suc k) as j)"
    then show "attemptScore e (Suc k) as j \<le> s"
      using Cons.prems[rule_format, of "Suc j"] by (simp add: attemptData_Suc attemptScore_Suc)
  qed
  from Cons.IH[OF this] show ?case using 0 by auto
qed

lemma weakAfter_none:
  "(\<forall>j<length as. \<not> hasResults (attemptData e k as j)) \<Longrightarrow> weakAfter e k as b = b"
proof (induction as arbitrary: k)
  case Nil
  then show ?case by simp
next
  case (Cons a as)
  have 0: "\<not> hasResults (attemptData e k (a # as) 0)" using Cons.prems by auto
  have "\<forall>j<length as. \<not> hasResults (attemptData e (Suc k) as j)"
  proof (intro allI impI)
    fix j assume "j < length as"
    then show "\<not> hasResults (attemptData e (Suc k) as j)"
      using Cons.prems[rule_format, of "Suc j"] by (simp add: attemptData_Suc)
  qed
  from Cons.IH[OF this] show ?case using 0 by simp
qed

lemma weakAfter_best:
  "i < length as \<Longrightarrow> hasResults (attemptData e k as i) \<Longrightarrow>
   (\<forall>j<i. hasResults (attemptData e k as j) \<longrightarrow> attemptScore e k as j < attemptScore e k as i) \<Longrightarrow>
   (\<forall>j<length as. hasResults (attemptData e k as j) \<longrightarrow> attemptScore e k as j \<le> attemptScore e k as i) \<Longrightarrow>
   (case b of None \<Rightarrow> True | Some (d0, u0, s0) \<Rightarrow> s0 < attemptScore e k as i) \<Longrightarrow>
   weakAfter e k as b = Some (attemptData e k as i, attemptUrl e as i, attemptScore e k as i)"
proof (induction as arbitrary: k i b)
  case Nil
  then show ?case by simp
next
  case (Cons a as)
  show ?case
  proof (cases i)
    case 0
    let ?d = "attemptData e k (a # as) 0" and ?s = "attemptScore e k (a # as) 0"
    let ?u = "attemptUrl e (a # as) 0"
    have later: "\<forall>j<length as. hasResults (attemptData e (Suc k) as j) \<longrightarrow> attemptScore e (Suc k) as j \<le> ?s"
    proof (intro allI impI)
      fix j assume "j < length as" "hasResults (attemptData e (Suc k) as j)"
      then show "attemptScore e (Suc k) as j \<le> ?s"
        using Cons.prems(4)[rule_format, of "Suc j"] 0 by (simp add: attemptData_Suc attemptScore_Suc)
    qed
    have "(if hasResults ?d
           then (case b of None \<Rightarrow> Some (?d, ?u, ?s)
                 | Some (d, u, best) \<Rightarrow> if best < ?s then Some (?d, ?u, ?s) else Some (d, u, best))
           else b) = Some (?d, ?u, ?s)"
      using Cons.prems(2,5) 0 by (auto split: option.splits)
    then have "weakAfter e k (a # as) b = weakAfter e (Suc k) as (Some (?d, ?u, ?s))" by simp
    also have "\<dots> = Some (?d, ?u, ?s)" by (rule weakAfter_keep[OF later])
    finally show ?thesis using 0 by simp
  next
    case (Suc i')
    let ?d = "attemptData e k (a # as) 0" and ?s = "attemptScore e k (a # as) 0"
    let ?u = "attemptUrl e (a # as) 0"
    let ?si = "attemptScore e (Suc k) as i'"
    let ?b1 = "if hasResults ?d
           then (case b of None \<Rightarrow> Some (?d, ?u, ?s)
                 | Some (d, u, best) \<Rightarrow> if best < ?s then Some (?d, ?u, ?s) else Some (d, u, best))
           else b"
    have si: "attemptScore e k (a # as) i = ?si" using Suc by (simp add: attemptScore_Suc)
    have first: "hasResults ?d \<longrightarrow> ?s < ?si"
      using Cons.prems(3)[rule_format, of 0] Suc si by simp
    have bprem: "case b of None \<Rightarrow> True | Some (d0, u0, s0) \<Rightarrow> s0 < ?si"
      using Cons.prems(5) unfolding si .
    have 1: "i' < length as" using Cons.prems(1) Suc by simp
    have 2: "hasResults (attemptData e (Suc k) as i')" using Cons.prems(2) Suc by (simp add: attemptData_Suc)
    have 3: "\<forall>j<i'. hasResults (attemptData e (Suc k) as j) \<longrightarrow> attemptScore e (Suc k) as j < ?si"
    proof (intro allI impI)
      fix j assume "j < i'" "hasResults (attemptData e (Suc k) as j)"
      then show "attemptScore e (Suc k) as j < ?si"
        using Cons.prems(3)[rule_format, of "Suc j"] Suc si by (simp add: attemptData_Suc attemptScore_Suc)
    qed
    have 4: "\<forall>j<length as. hasResults (attemptData e (Suc k) as j) \<longrightarrow> attemptScore e (Suc k) as j \<le> ?si"
    proof (intro allI impI)
      fix j assume "j < length as" "hasResults (attemptData e (Suc k) as j)"
      then show "attemptScore e (Suc k) as j \<le> ?si"
        using Cons.prems(4)[rule_format, of "Suc j"] si by (simp add: attemptData_Suc attemptScore_Suc)
    qed
    have 5: "case ?b1 of None \<Rightarrow> True | Some (d0, u0, s0) \<Rightarrow> s0 < ?si"
      using first bprem by (auto split: option.splits)
    have "weakAfter e k (a # as) b = weakAfter e (Suc k) as ?b1" by simp
    also have "\<dots> = Some (attemptData e (Suc k) as i', attemptUrl e as i', ?si)" by (rule Cons.IH[OF 1 2 3 4 5])
    finally show ?thesis using Suc by (simp add: attemptData_Suc attemptScore_Suc attemptUrl_Suc)
  qed
qed


lemma expandSynonyms_noInherited: "expandSynonyms ts = Inr out \<Longrightarrow> noInherited ts"
  using expandSynonyms_throws[of ts] by (auto simp: noInherited_def)

text \<open>
  The query path, with the nested loops replaced by the loop over the attempts that fit
  the budget.
\<close>

lemma querySearch_attempts:
  assumes "expandSynonyms (split_ws (trim query)) = Inr expandedTerms"
  shows "querySearch port query dc resultLimit =
       (case attemptLoop (queryEnv port query dc resultLimit)
               (take MAX_API_CALLS (broadeningPlan (queryTermSets (split_ws (trim query)) expandedTerms)))
               \<lparr>apiCalls = 0, bestWeak = None, calls = []\<rparr> of
          (Return out, st) \<Rightarrow> (Inr out, calls st)
        | (Throw err, st) \<Rightarrow> (Inl err, calls st)
        | (Next, st) \<Rightarrow>
            (case bestWeak st of
               Some (data, url, score) \<Rightarrow> (rendered url (Weak data), calls st)
             | None \<Rightarrow>
                 (case bridgeVia510k port (split_ws (trim query)) expandedTerms dc (calls st) of
                    (Some bridgeResult, lg) \<Rightarrow> (bridgeResult, lg)
                  | (None, lg) \<Rightarrow>
                      (rendered (buildSearchTerms ''device_name'' query)
                         (Unresolved query
                            (if isAIQuery (split_ws (trim query)) then AISuggestions else GeneralSuggestions)),
                       lg))))"
proof -
  let ?e = "queryEnv port query dc resultLimit"
  let ?tss = "queryTermSets (split_ws (trim query)) expandedTerms"
  let ?st0 = "\<lparr>apiCalls = 0, bestWeak = None, calls = []\<rparr>"
  have "termSetLoop ?e ?tss ?st0 = attemptLoop ?e (broadeningPlan ?tss) ?st0"
    by (rule termSetLoop_attemptLoop)
  also have "\<dots> = attemptLoop ?e (take MAX_API_CALLS (broadeningPlan ?tss)) ?st0"
    using attemptLoop_truncate[of ?e "broadeningPlan ?tss" ?st0] by simp
  finally have t: "termSetLoop ?e ?tss ?st0 = attemptLoop ?e (take MAX_API_CALLS (broadeningPlan ?tss)) ?st0" .
  show ?thesis
    using assms by (simp add: querySearch_def Let_def queryEnv_def[symmetric] t)
qed


lemma rendered_cases: "rendered search out = Inl URIError \<or> rendered search out = Inr out"
  by (simp add: rendered_def formatFooter_def)

lemma bridgeAttempt_outcome:
  "bridgeAttempt port dc combo lg = (Some res, lg') \<Longrightarrow> res = Inl URIError \<or> (\<exists>a b c. res = Inr (Bridged a b c))"
  using rendered_cases by (fastforce simp: bridgeAttempt_def Let_def split: prod.splits if_splits)

lemma bridgeComboLoop_outcome:
  "bridgeComboLoop port dc cs (seen, lg) = (Some out, seen', lg') \<Longrightarrow>
     out = Inl URIError \<or> (\<exists>a b c. out = Inr (Bridged a b c))"
proof (induction cs arbitrary: seen lg)
  case Nil
  then show ?case by simp
next
  case (Cons c cs)
  show ?case
  proof (cases "join ''+'' c \<in> seen")
    case True
    then show ?thesis using Cons by (simp add: Let_def)
  next
    case False
    obtain o1 lg1 where a: "bridgeAttempt port dc c lg = (o1, lg1)" by (cases "bridgeAttempt port dc c lg")
    show ?thesis
    proof (cases o1)
      case None
      then show ?thesis using Cons False a by (simp add: Let_def)
    next
      case (Some out1)
      then have "out = out1" using Cons.prems False a by (simp add: Let_def)
      then show ?thesis using bridgeAttempt_outcome a Some by blast
    qed
  qed
qed

lemma bridge_outcome:
  "bridgeTermSetLoop port dc tss (seen, lg) = (out, seen', lg') \<Longrightarrow>
     out = None \<or> out = Some (Inl URIError) \<or> (\<exists>a b c. out = Some (Inr (Bridged a b c)))"
proof (induction tss arbitrary: seen lg)
  case Nil
  then show ?case by simp
next
  case (Cons terms tss)
  obtain o1 seen1 lg1 where c: "bridgeComboLoop port dc (topCombos terms) (seen, lg) = (o1, seen1, lg1)"
    by (cases "bridgeComboLoop port dc (topCombos terms) (seen, lg)") auto
  show ?case
  proof (cases o1)
    case None
    then show ?thesis using Cons c by simp
  next
    case (Some out1)
    then have "out = Some out1" using Cons.prems c by simp
    then show ?thesis using bridgeComboLoop_outcome c Some by blast
  qed
qed

text \<open>
  The decision of the loops on the query path. Let \<open>A\<close> be the attempts that fit the
  budget, in the order of the loops. Every data with results is scored against the original
  terms (\<open>split_ws (trim query)\<close>, before the expansion). At the first attempt whose data
  has results and whose combination has all used terms, or whose score is at least the
  threshold, the handler renders that data and makes no invocation after it. When no
  attempt does that, it renders the data with results whose score is strictly greater than
  every earlier one and at least every later one: each data was kept exactly when its
  score was strictly greater than the best before it. When no attempt has results,
  neither of the two is returned. The scores and the threshold are doubles. Each of the
  two \<open>return\<close> statements renders with the URL of the attempt, and returns when that URL
  decodes.
\<close>

lemma broadening_decision:
  assumes q: "query \<noteq> []" "\<not> PRODUCT_CODE_RE (trim query)"
    and ex: "expandSynonyms (split_ws (trim query)) = Inr expandedTerms"
    and e: "e = queryEnv port query dc (case limit of None \<Rightarrow> 10 | Some l \<Rightarrow> l)"
    and A: "A = take 30 (broadeningPlan (queryTermSets (split_ws (trim query)) expandedTerms))"
  shows
    "(\<forall>i<length A. scoreResults (resultsOf (attemptData e 0 A i)) (split_ws (trim query))
                      = Inr (attemptScore e 0 A i)) \<and>
     (\<forall>i<length A. attemptStrong e 0 A i \<longrightarrow> (\<forall>j<i. \<not> attemptStrong e 0 A j) \<longrightarrow>
        classify_device port None (Some query) dc limit =
          (rendered (attemptUrl e A i) (Strong (attemptData e 0 A i)), map (attemptCall e) (take (Suc i) A))) \<and>
     ((\<forall>i<length A. \<not> attemptStrong e 0 A i) \<longrightarrow>
        (\<forall>i<length A. hasResults (attemptData e 0 A i) \<longrightarrow>
           (\<forall>j<i. hasResults (attemptData e 0 A j) \<longrightarrow> attemptScore e 0 A j < attemptScore e 0 A i) \<longrightarrow>
           (\<forall>j<length A. hasResults (attemptData e 0 A j) \<longrightarrow> attemptScore e 0 A j \<le> attemptScore e 0 A i) \<longrightarrow>
           fst (classify_device port None (Some query) dc limit) =
             rendered (attemptUrl e A i) (Weak (attemptData e 0 A i)))) \<and>
     ((\<forall>i<length A. \<not> hasResults (attemptData e 0 A i)) \<longrightarrow>
        (\<forall>d. fst (classify_device port None (Some query) dc limit) \<noteq> Inr (Strong d) \<and>
             fst (classify_device port None (Some query) dc limit) \<noteq> Inr (Weak d)))"
proof -
  let ?lim = "case limit of None \<Rightarrow> 10 | Some l \<Rightarrow> l"
  let ?st0 = "\<lparr>apiCalls = 0, bestWeak = None, calls = []\<rparr>"
  let ?r = "classify_device port None (Some query) dc limit"
  have ot: "e_originalTerms e = split_ws (trim query)" by (simp add: e queryEnv_def)
  have ni: "noInherited (e_originalTerms e)" unfolding ot by (rule expandSynonyms_noInherited[OF ex])
  have A': "A = take MAX_API_CALLS (broadeningPlan (queryTermSets (split_ws (trim query)) expandedTerms))"
    by (simp add: A MAX_API_CALLS_def)
  have budget: "apiCalls ?st0 + length A \<le> MAX_API_CALLS" by (simp add: A')
  have k0: "length (calls ?st0) = 0" by simp
  have r: "?r = (case attemptLoop e A ?st0 of
          (Return out, st) \<Rightarrow> (Inr out, calls st)
        | (Throw err, st) \<Rightarrow> (Inl err, calls st)
        | (Next, st) \<Rightarrow>
            (case bestWeak st of
               Some (data, url, score) \<Rightarrow> (rendered url (Weak data), calls st)
             | None \<Rightarrow>
                 (case bridgeVia510k port (split_ws (trim query)) expandedTerms dc (calls st) of
                    (Some bridgeResult, lg) \<Rightarrow> (bridgeResult, lg)
                  | (None, lg) \<Rightarrow>
                      (rendered (buildSearchTerms ''device_name'' query)
                         (Unresolved query
                            (if isAIQuery (split_ws (trim query)) then AISuggestions else GeneralSuggestions)),
                       lg))))"
    unfolding classify_device_query[OF q] querySearch_attempts[OF ex] e A' ..
  have c1: "\<forall>i<length A. scoreResults (resultsOf (attemptData e 0 A i)) (split_ws (trim query))
                      = Inr (attemptScore e 0 A i)"
    using score_defined[OF ni] ot by simp
  have c2: "?r = (rendered (attemptUrl e A i) (Strong (attemptData e 0 A i)), map (attemptCall e) (take (Suc i) A))"
    if "i < length A" "attemptStrong e 0 A i" "\<forall>j<i. \<not> attemptStrong e 0 A j" for i
  proof -
    have f: "fst (attemptLoop e A ?st0) =
               returned (rendered (attemptUrl e A i) (Strong (attemptData e (length (calls ?st0)) A i)))"
      by (rule attemptLoop_first_strong[OF ni budget that(1)]) (use that in simp_all)
    have "calls (snd (attemptLoop e A ?st0)) = calls ?st0 @ map (attemptCall e) (take (Suc i) A)"
      by (rule attemptLoop_first_strong_calls[OF ni budget that(1)]) (use that in simp_all)
    then show ?thesis unfolding r using f
      by (cases "attemptLoop e A ?st0") (auto simp: returned_def split: sum.splits)
  qed
  have ns: "\<exists>st'. attemptLoop e A ?st0 = (Next, st') \<and> bestWeak st' = weakAfter e 0 A None"
    if "\<forall>i<length A. \<not> attemptStrong e 0 A i"
    using attemptLoop_no_strong[OF ni budget] that by simp
  have c3: "fst ?r = rendered (attemptUrl e A i) (Weak (attemptData e 0 A i))"
    if "\<forall>i<length A. \<not> attemptStrong e 0 A i" "i < length A" "hasResults (attemptData e 0 A i)"
       "\<forall>j<i. hasResults (attemptData e 0 A j) \<longrightarrow> attemptScore e 0 A j < attemptScore e 0 A i"
       "\<forall>j<length A. hasResults (attemptData e 0 A j) \<longrightarrow> attemptScore e 0 A j \<le> attemptScore e 0 A i" for i
  proof -
    from ns[OF that(1)] obtain st' where
      l: "attemptLoop e A ?st0 = (Next, st')" and b: "bestWeak st' = weakAfter e 0 A None" by blast
    have "weakAfter e 0 A None = Some (attemptData e 0 A i, attemptUrl e A i, attemptScore e 0 A i)"
      by (rule weakAfter_best[OF that(2,3,4,5)]) simp
    then show ?thesis unfolding r l using b by simp
  qed
  have c4: "fst ?r \<noteq> Inr (Strong d) \<and> fst ?r \<noteq> Inr (Weak d)"
    if "\<forall>i<length A. \<not> hasResults (attemptData e 0 A i)" for d
  proof -
    have "\<forall>i<length A. \<not> attemptStrong e 0 A i" using that by (simp add: attemptStrong_def)
    from ns[OF this] obtain st' where
      l: "attemptLoop e A ?st0 = (Next, st')" and b: "bestWeak st' = weakAfter e 0 A None" by blast
    have "weakAfter e 0 A None = None" by (rule weakAfter_none[OF that])
    then have b': "bestWeak st' = None" using b by simp
    obtain out lg where br: "bridgeVia510k port (split_ws (trim query)) expandedTerms dc (calls st') = (out, lg)"
      by (cases "bridgeVia510k port (split_ws (trim query)) expandedTerms dc (calls st')")
    have "out \<noteq> Some (Inr (Strong d)) \<and> out \<noteq> Some (Inr (Weak d))"
    proof -
      obtain seen' where t: "bridgeTermSetLoop port dc [expandedTerms, split_ws (trim query)] ({}, calls st') = (out, seen', lg)"
        using br by (auto simp: bridgeVia510k_def split: prod.splits)
      show ?thesis using bridge_outcome[OF t] by auto
    qed
    moreover have "rendered u (Unresolved x y) \<noteq> Inr (Strong d) \<and> rendered u (Unresolved x y) \<noteq> Inr (Weak d)"
      for u x y using rendered_cases[of u "Unresolved x y"] by auto
    ultimately show ?thesis unfolding r l using b' br by (cases out) auto
  qed
  show ?thesis using c1 c2 c3 c4 by blast
qed

text \<open>
  A run of the decision: the second invocation finds a record for the full-length
  combination, and the handler returns it at once.
\<close>

lemma broadening_decision_example:
  "fst (classify_device secondCallMatches None (Some ''insulin pump'') None None) =
     Inr (Strong \<lparr>resp_error = None,
                  resp_results = Some [\<lparr>r_device_name = Some ''Pump, Infusion, Insulin'',
                                        r_definition = None, r_product_code = Some ''LZG''\<rparr>]\<rparr>)"
proof -
  let ?e = "queryEnv secondCallMatches ''insulin pump'' None 10"
  let ?A = "take 30 (broadeningPlan (queryTermSets (split_ws (trim ''insulin pump''))
                                        [''insulin'', ''infusion'', ''pump'']))"
  have h1: "''insulin pump'' \<noteq> []" by simp
  have h2: "\<not> PRODUCT_CODE_RE (trim ''insulin pump'')" by code_simp
  have h3: "expandSynonyms (split_ws (trim ''insulin pump'')) = Inr [''insulin'', ''infusion'', ''pump'']"
    by code_simp
  have h4: "?e = queryEnv secondCallMatches ''insulin pump'' None (case None of None \<Rightarrow> 10 | Some l \<Rightarrow> l)"
    by simp
  have len: "1 < length ?A" by code_simp
  have s1: "attemptStrong ?e 0 ?A 1" by code_simp
  have s0: "\<not> attemptStrong ?e 0 ?A 0" by code_simp
  have d1: "rendered (attemptUrl ?e ?A 1) (Strong (attemptData ?e 0 ?A 1)) =
     Inr (Strong \<lparr>resp_error = None,
                  resp_results = Some [\<lparr>r_device_name = Some ''Pump, Infusion, Insulin'',
                                        r_definition = None, r_product_code = Some ''LZG''\<rparr>]\<rparr>)"
    by code_simp
  have first: "\<forall>j<1. \<not> attemptStrong ?e 0 ?A j" using s0 by simp
  from broadening_decision [OF h1 h2 h3 h4 refl]
  have "classify_device secondCallMatches None (Some ''insulin pump'') None None =
          (rendered (attemptUrl ?e ?A 1) (Strong (attemptData ?e 0 ?A 1)), map (attemptCall ?e) (take (Suc 1) ?A))"
    using len s1 first by blast
  then show ?thesis unfolding d1 by simp
qed

text \<open>
  With five records that cover none, none, two, three and one of three original terms,
  the exact mean is four tenths; the score the code computes is the double just below
  the double of the literal \<open>0.4\<close>, so such data does not reach the threshold.
\<close>

lemma score_below_threshold_example:
  "scoreResults (resultsOf (thirdCallFindsFive 2 req)) [''alpha'', ''bravo'', ''delta''] =
     Inr (7205759403792793 / 18014398509481984) \<and>
   RELEVANCE_THRESHOLD = 3602879701896397 / 9007199254740992 \<and>
   (7205759403792793 / 18014398509481984 :: rat) < RELEVANCE_THRESHOLD"
  by code_simp

text \<open>
  In the handler: the third invocation, the first with a combination of two of the three
  terms, finds that data. The handler keeps it as the weak candidate, makes the eleven
  invocations that are left, and returns it as the weak match.
\<close>

lemma threshold_rounding_example:
  "fst (classify_device thirdCallFindsFive None (Some ''alpha bravo delta'') None None) =
     Inr (Weak (thirdCallFindsFive 2 req)) \<and>
   length (snd (classify_device thirdCallFindsFive None (Some ''alpha bravo delta'') None None)) = 14"
  by code_simp

text \<open>
  Three records that cover none, one and two of five terms have the exact mean one fifth;
  the score the code computes is the double just above the double of one fifth, so it
  replaces a weak candidate whose score is that double.
\<close>

lemma score_above_fifth_example:
  "scoreResults
     [\<lparr>r_device_name = Some ''omega'', r_definition = None, r_product_code = None\<rparr>,
      \<lparr>r_device_name = Some ''alpha'', r_definition = None, r_product_code = None\<rparr>,
      \<lparr>r_device_name = Some ''alpha bravo'', r_definition = None, r_product_code = None\<rparr>]
     [''alpha'', ''bravo'', ''delta'', ''gamma'', ''kappa''] = Inr (7205759403792795 / 36028797018963968) \<and>
   scoreResults
     [\<lparr>r_device_name = Some ''alpha'', r_definition = None, r_product_code = None\<rparr>]
     [''alpha'', ''bravo'', ''delta'', ''gamma'', ''kappa''] = Inr (3602879701896397 / 18014398509481984) \<and>
   (3602879701896397 / 18014398509481984 :: rat) < 7205759403792795 / 36028797018963968"
  by code_simp

text \<open>
  Claim C5. With the query \<open>50% saline\<close> and a port whose second invocation finds a
  record, the second attempt (the full-length combination in \<open>definition\<close>) has results
  and the first has none, so the claim has the handler return that data as a strong
  match. The handler does not return: the URL of the attempt has \<open>%\<close> followed by
  \<open>+A\<close>, and \<open>decodeURIComponent\<close> in \<open>formatFooter\<close> throws a \<open>URIError\<close>. (When the URL
  it renders decodes, the handler decides as the claim says: \<open>broadening_decision\<close>.)
\<close>

theorem strong_match_footer_throws:
  "\<not> attemptStrong (queryEnv secondCallMatches ''50% saline'' None 10) 0
       (take 30 (broadeningPlan (queryTermSets (split_ws (trim ''50% saline'')) [''50%'', ''saline'']))) 0 \<and>
   attemptStrong (queryEnv secondCallMatches ''50% saline'' None 10) 0
       (take 30 (broadeningPlan (queryTermSets (split_ws (trim ''50% saline'')) [''50%'', ''saline'']))) 1 \<and>
   expandSynonyms (split_ws (trim ''50% saline'')) = Inr [''50%'', ''saline''] \<and>
   classify_device secondCallMatches None (Some ''50% saline'') None None =
     (Inl URIError,
      [(BroadeningSearch, \<lparr>req_endpoint = ''classification'',
                            req_searchParts = [''device_name:50%+AND+device_name:saline''],
                            req_limit = 10, req_sort = None\<rparr>),
       (BroadeningSearch, \<lparr>req_endpoint = ''classification'',
                            req_searchParts = [''definition:50%+AND+definition:saline''],
                            req_limit = 10, req_sort = None\<rparr>)])"
  by code_simp

lemma plan_calls:
  "map (attemptCall e) (broadeningPlan termSets) =
     concat (map (\<lambda>terms. concat (map (\<lambda>combo. [(BroadeningSearch, broadeningRequest e combo ''device_name''),
                                                   (BroadeningSearch, broadeningRequest e combo ''definition'')])
                                       (orderedCombos (termsToUse terms))))
                 termSets)"
  by (simp add: broadeningPlan_def comboAttempts_def searchFields_def attemptCall_def map_concat comp_def)

text \<open>
  Claim C3, as the code has it. The invocations of the broadening loops are a prefix, of at
  most 30, of this list: for each term set in turn, for each combination of
  \<open>orderedCombos\<close> of its used terms, the search in \<open>device_name\<close> and then the search in
  \<open>definition\<close>. \<open>orderedCombos\<close> is the generator's list in four groups: the full-length
  combinations, those of two or three terms, those of more than three terms, the single
  terms; inside a group the generator's order is kept. For two to four used terms that is
  the generator's order.
\<close>

theorem broadening_order:
  assumes q: "query \<noteq> []" "\<not> PRODUCT_CODE_RE (trim query)"
    and ex: "expandSynonyms (split_ws (trim query)) = Inr expandedTerms"
    and e: "e = queryEnv port query dc (case limit of None \<Rightarrow> 10 | Some l \<Rightarrow> l)"
  shows
    "(\<exists>k\<le>30. filter (\<lambda>c. fst c = BroadeningSearch) (snd (classify_device port None (Some query) dc limit)) =
        take k (concat (map (\<lambda>terms. concat (map (\<lambda>combo.
                   [(BroadeningSearch, broadeningRequest e combo ''device_name''),
                    (BroadeningSearch, broadeningRequest e combo ''definition'')])
                 (orderedCombos (termsToUse terms))))
               (queryTermSets (split_ws (trim query)) expandedTerms)))) \<and>
     (\<forall>ttu. orderedCombos ttu =
        filter (\<lambda>c. length c = length ttu) (generateCombinations ttu) @
        filter (\<lambda>c. 2 \<le> length c \<and> length c \<le> 3 \<and> length c < length ttu) (generateCombinations ttu) @
        filter (\<lambda>c. 3 < length c \<and> length c < length ttu) (generateCombinations ttu) @
        filter (\<lambda>c. length c = 1) (generateCombinations ttu)) \<and>
     (\<forall>ttu. 2 \<le> length ttu \<and> length ttu \<le> 4 \<longrightarrow> orderedCombos ttu = generateCombinations ttu)"
proof -
  let ?lim = "case limit of None \<Rightarrow> 10 | Some l \<Rightarrow> l"
  let ?plan = "broadeningPlan (queryTermSets (split_ws (trim query)) expandedTerms)"
  from querySearch_log[OF ex, of port dc ?lim] obtain k ext where
    k: "k \<le> MAX_API_CALLS" and
    lg: "snd (querySearch port query dc ?lim) = map (attemptCall e) (take k ?plan) @ ext" and
    bb: "bridgeBlocks port dc k ext" unfolding e by blast
  have "filter (\<lambda>c. fst c = BroadeningSearch) (snd (classify_device port None (Some query) dc limit)) =
          map (attemptCall e) (take k ?plan)"
    unfolding classify_device_query[OF q] lg filter_append filter_attemptCalls filter_bridgeBlocks[OF bb]
    by simp
  also have "\<dots> = take k (map (attemptCall e) ?plan)" by (simp add: take_map)
  finally have 1: "\<exists>k\<le>30. filter (\<lambda>c. fst c = BroadeningSearch) (snd (classify_device port None (Some query) dc limit)) =
        take k (concat (map (\<lambda>terms. concat (map (\<lambda>combo.
                   [(BroadeningSearch, broadeningRequest e combo ''device_name''),
                    (BroadeningSearch, broadeningRequest e combo ''definition'')])
                 (orderedCombos (termsToUse terms))))
               (queryTermSets (split_ws (trim query)) expandedTerms)))"
    unfolding plan_calls using k by (auto simp: MAX_API_CALLS_def)
  have 2: "orderedCombos ttu =
        filter (\<lambda>c. length c = length ttu) (generateCombinations ttu) @
        filter (\<lambda>c. 2 \<le> length c \<and> length c \<le> 3 \<and> length c < length ttu) (generateCombinations ttu) @
        filter (\<lambda>c. 3 < length c \<and> length c < length ttu) (generateCombinations ttu) @
        filter (\<lambda>c. length c = 1) (generateCombinations ttu)" for ttu
    by (simp add: orderedCombos_def Let_def)
  show ?thesis using 1 2 orderedCombos_small by blast
qed

theorem broadening_order_witness:
  "\<exists>k\<le>30. filter (\<lambda>c. fst c = BroadeningSearch)
              (snd (classify_device rateLimited None (Some ''insulin pump'') None None)) =
        take k (concat (map (\<lambda>terms. concat (map (\<lambda>combo.
                   [(BroadeningSearch, broadeningRequest (queryEnv rateLimited ''insulin pump'' None 10) combo ''device_name''),
                    (BroadeningSearch, broadeningRequest (queryEnv rateLimited ''insulin pump'' None 10) combo ''definition'')])
                 (orderedCombos (termsToUse terms))))
               [[''insulin'', ''infusion'', ''pump''], [''insulin'', ''pump'']]))"
proof -
  have h1: "''insulin pump'' \<noteq> []" by simp
  have h2: "\<not> PRODUCT_CODE_RE (trim ''insulin pump'')" by code_simp
  have h3: "expandSynonyms (split_ws (trim ''insulin pump'')) = Inr [''insulin'', ''infusion'', ''pump'']"
    by code_simp
  have h4: "queryEnv rateLimited ''insulin pump'' None 10 =
            queryEnv rateLimited ''insulin pump'' None (case None of None \<Rightarrow> 10 | Some l \<Rightarrow> l)"
    by simp
  have ts: "queryTermSets (split_ws (trim ''insulin pump'')) [''insulin'', ''infusion'', ''pump''] =
            [[''insulin'', ''infusion'', ''pump''], [''insulin'', ''pump'']]"
    by code_simp
  from broadening_order [OF h1 h2 h3 h4]
  show ?thesis unfolding ts by blast
qed

text \<open>
  With five terms the generator's second combination has four terms, and the loop's
  second combination (its third invocation) has three.
\<close>

theorem generator_order_counterexample:
  "generateCombinations [''alpha'', ''bravo'', ''delta'', ''gamma'', ''omega''] ! 1 =
     [''alpha'', ''bravo'', ''delta'', ''gamma''] \<and>
   req_searchParts (snd (snd (classify_device rateLimited None
                                 (Some ''alpha bravo delta gamma omega'') None None) ! 2)) =
     [''device_name:alpha+AND+device_name:bravo+AND+device_name:delta'']"
  by code_simp

section \<open>When every invocation fails\<close>







text \<open>
  With the query \<open>50% saline\<close> the search expression of \<open>fallbackUrl\<close> has \<open>%\<close> followed
  by \<open>+A\<close>: after the six attempts and the two searches of the bridge, the last \<open>return\<close>
  throws.
\<close>

lemma fallback_footer_throws_example:
  "uriMalformed (buildSearchTerms ''device_name'' ''50% saline'') \<and>
   fst (classify_device rateLimited None (Some ''50% saline'') None None) = Inl URIError \<and>
   length (snd (classify_device rateLimited None (Some ''50% saline'') None None)) = 8"
  by code_simp


section \<open>The candidates and the lookups of the bridge\<close>

lemma join_plus_Cons:
  "join ''+'' (x # xs) = x @ (if xs = [] then [] else CHR ''+'' # join ''+'' xs)"
  by (cases xs) auto

lemma takeWhile_join:
  "CHR ''+'' \<notin> set x \<Longrightarrow> takeWhile (\<lambda>c. c \<noteq> CHR ''+'') (join ''+'' (x # xs)) = x"
proof -
  assume "CHR ''+'' \<notin> set x"
  then have a: "\<forall>c\<in>set x. c \<noteq> CHR ''+''" by auto
  then have "takeWhile (\<lambda>c. c \<noteq> CHR ''+'') (x @ ys) = x @ takeWhile (\<lambda>c. c \<noteq> CHR ''+'') ys" for ys
    by (simp add: takeWhile_append2)
  then show ?thesis unfolding join_plus_Cons by simp
qed

lemma dropWhile_join:
  "CHR ''+'' \<notin> set x \<Longrightarrow>
     dropWhile (\<lambda>c. c \<noteq> CHR ''+'') (join ''+'' (x # xs)) = (if xs = [] then [] else CHR ''+'' # join ''+'' xs)"
proof -
  assume "CHR ''+'' \<notin> set x"
  then have a: "\<forall>c\<in>set x. c \<noteq> CHR ''+''" by auto
  then have "dropWhile (\<lambda>c. c \<noteq> CHR ''+'') (x @ ys) = dropWhile (\<lambda>c. c \<noteq> CHR ''+'') ys" for ys
    by (simp add: dropWhile_append2)
  then show ?thesis unfolding join_plus_Cons by simp
qed

lemma join_plus_inj:
  "xs \<noteq> [] \<Longrightarrow> ys \<noteq> [] \<Longrightarrow> (\<forall>x\<in>set xs. CHR ''+'' \<notin> set x) \<Longrightarrow> (\<forall>y\<in>set ys. CHR ''+'' \<notin> set y) \<Longrightarrow>
     join ''+'' xs = join ''+'' ys \<Longrightarrow> xs = ys"
proof (induction xs arbitrary: ys)
  case Nil
  then show ?case by simp
next
  case (Cons x xs)
  obtain y ys' where ys: "ys = y # ys'" using Cons.prems(2) by (cases ys) auto
  have px: "CHR ''+'' \<notin> set x" and py: "CHR ''+'' \<notin> set y" using Cons.prems(3,4) ys by auto
  have eq: "join ''+'' (x # xs) = join ''+'' (y # ys')" using Cons.prems(5) ys by simp
  have "takeWhile (\<lambda>c. c \<noteq> CHR ''+'') (join ''+'' (x # xs)) = takeWhile (\<lambda>c. c \<noteq> CHR ''+'') (join ''+'' (y # ys'))"
    using eq by simp
  then have xy: "x = y" using takeWhile_join[OF px] takeWhile_join[OF py] by simp
  have "dropWhile (\<lambda>c. c \<noteq> CHR ''+'') (join ''+'' (x # xs)) = dropWhile (\<lambda>c. c \<noteq> CHR ''+'') (join ''+'' (y # ys'))"
    using eq by simp
  then have d: "(if xs = [] then [] else CHR ''+'' # join ''+'' xs) = (if ys' = [] then [] else CHR ''+'' # join ''+'' ys')"
    using dropWhile_join[OF px] dropWhile_join[OF py] by simp
  show ?case
  proof (cases "xs = []")
    case True
    then have "ys' = []" using d by (auto split: if_splits)
    then show ?thesis using True xy ys by simp
  next
    case False
    then have ne: "ys' \<noteq> []" and j: "join ''+'' xs = join ''+'' ys'" using d by (auto split: if_splits)
    have "xs = ys'" by (rule Cons.IH[OF False ne _ _ j]) (use Cons.prems(3,4) ys in auto)
    then show ?thesis using xy ys by simp
  qed
qed

lemma firstByKey_keys:
  "distinct (map (join ''+'') (firstByKey seen cs)) \<and> set (map (join ''+'') (firstByKey seen cs)) \<inter> seen = {} \<and>
   set (firstByKey seen cs) \<subseteq> set cs"
proof (induction cs arbitrary: seen)
  case Nil
  then show ?case by simp
next
  case (Cons c cs)
  show ?case
  proof (cases "join ''+'' c \<in> seen")
    case True
    then show ?thesis using Cons.IH[of seen] by auto
  next
    case False
    then show ?thesis using Cons.IH[of "insert (join ''+'' c) seen"] by auto
  qed
qed

lemma firstByKey_set:
  "inj_on (join ''+'') (set cs) \<Longrightarrow> set (firstByKey seen cs) = {c \<in> set cs. join ''+'' c \<notin> seen}"
proof (induction cs arbitrary: seen)
  case Nil
  then show ?case by simp
next
  case (Cons c cs)
  have inj: "inj_on (join ''+'') (set cs)" using Cons.prems by (simp add: inj_on_def)
  show ?case
  proof (cases "join ''+'' c \<in> seen")
    case True
    then show ?thesis using Cons.IH[OF inj, of seen] by auto
  next
    case False
    have same: "c' = c" if "c' \<in> set cs" "join ''+'' c' = join ''+'' c" for c'
      using Cons.prems that by (auto simp: inj_on_def)
    show ?thesis using False Cons.IH[OF inj, of "insert (join ''+'' c) seen"] same by auto
  qed
qed

lemma generateCombinations_subset: "c \<in> set (generateCombinations terms) \<Longrightarrow> set c \<subseteq> set terms"
proof (cases "terms = []")
  case True
  assume "c \<in> set (generateCombinations terms)"
  then show ?thesis using True by (simp add: generateCombinations_def)
next
  case False
  assume "c \<in> set (generateCombinations terms)"
  then obtain idx where idx: "idx \<in> set (combinationIndices (length terms))" and c: "c = map ((!) terms) idx"
    unfolding generateCombinations_indices[OF False] by auto
  have "set idx \<subseteq> {..<length terms}" using idx by (simp add: set_combinationIndices)
  then show ?thesis using c by auto
qed

lemma topCombos_elements:
  "c \<in> set (topCombos terms) \<Longrightarrow> c \<noteq> [] \<and> set c \<subseteq> set terms"
proof -
  assume "c \<in> set (topCombos terms)"
  then consider "c \<in> set (take 8 (filter (\<lambda>c. 2 \<le> length c) (generateCombinations terms)))"
    | t where "c = [t]" "t \<in> set terms"
    by (auto simp: topCombos_def Let_def)
  then show ?thesis
  proof cases
    case 1
    then have "c \<in> set (filter (\<lambda>c. 2 \<le> length c) (generateCombinations terms))"
      by (rule in_set_takeD)
    then show ?thesis using generateCombinations_subset[of c terms] by auto
  next
    case 2
    then show ?thesis by simp
  qed
qed

lemma set_distinctCodes_records:
  "set (distinctCodes rs) =
     {toUpperCase raw |raw r. r \<in> set rs \<and> r_product_code r = Some raw \<and> PRODUCT_CODE_RE (toUpperCase raw)}"
proof (intro set_eqI iffI)
  fix c assume "c \<in> set (distinctCodes rs)"
  then obtain r where r: "r \<in> set rs"
    "c \<in> set (case r_product_code r of None \<Rightarrow> []
                | Some raw \<Rightarrow> if PRODUCT_CODE_RE (toUpperCase raw) then [toUpperCase raw] else [])"
    by (auto simp: set_distinctCodes validCodes_def)
  then obtain raw where "r_product_code r = Some raw" "PRODUCT_CODE_RE (toUpperCase raw)" "c = toUpperCase raw"
    by (cases "r_product_code r") (auto split: if_splits)
  then show "c \<in> {toUpperCase raw |raw r. r \<in> set rs \<and> r_product_code r = Some raw \<and> PRODUCT_CODE_RE (toUpperCase raw)}"
    using r(1) by blast
next
  fix c assume "c \<in> {toUpperCase raw |raw r. r \<in> set rs \<and> r_product_code r = Some raw \<and> PRODUCT_CODE_RE (toUpperCase raw)}"
  then obtain raw r where "c = toUpperCase raw" "r \<in> set rs" "r_product_code r = Some raw"
    "PRODUCT_CODE_RE (toUpperCase raw)" by blast
  then show "c \<in> set (distinctCodes rs)"
    by (force simp: set_distinctCodes validCodes_def)
qed

text \<open>
  Claim C8, as the code has it. The candidates of a term set are the first 8 generated
  combinations of two or more terms and then each single term that is not generic and has
  five or more characters; the candidates of the expanded terms come before those of the
  original terms. When no term contains the character \<open>+\<close>, the combinations that are
  searched are the candidates without repetitions, each at its first place. The 510(k)
  searches of a run are a prefix of that list, all of it when the bridge returns nothing:
  the bridge returns at the first candidate that leads to a classification. In the log,
  every 510(k) search is followed by exactly one classification lookup for each distinct
  well-formed product code of its results, in upper case, whatever the number of records.
\<close>

theorem bridge_candidates_and_lookups:
  assumes run: "bridgeVia510k port originalTerms expandedTerms dc lg = (out, lg')"
    and plus: "\<forall>t \<in> set originalTerms \<union> set expandedTerms. CHR ''+'' \<notin> set t"
    and cands: "cands = topCombos expandedTerms @ topCombos originalTerms"
  shows
    "(\<forall>terms. topCombos terms =
        take 8 (filter (\<lambda>c. 2 \<le> length c) (generateCombinations terms)) @
        map (\<lambda>t. [t]) (filter (\<lambda>t. \<not> List.member GENERIC_510K_TERMS (toLowerCase t) \<and> 5 \<le> length t) terms)) \<and>
     distinct (firstByKey {} cands) \<and> set (firstByKey {} cands) = set cands \<and>
     (\<exists>k ext. lg' = lg @ ext \<and> k \<le> length (firstByKey {} cands) \<and>
        filter (\<lambda>c. fst c = Bridge510kSearch) ext = map bridgeCall (take k (firstByKey {} cands)) \<and>
        (out = None \<longrightarrow> k = length (firstByKey {} cands)) \<and>
        bridgeBlocks port dc (length lg) ext) \<and>
     (\<forall>rs. distinct (distinctCodes rs) \<and>
        set (distinctCodes rs) =
          {toUpperCase raw |raw r. r \<in> set rs \<and> r_product_code r = Some raw \<and> PRODUCT_CODE_RE (toUpperCase raw)})"
proof -
  have 1: "topCombos terms =
        take 8 (filter (\<lambda>c. 2 \<le> length c) (generateCombinations terms)) @
        map (\<lambda>t. [t]) (filter (\<lambda>t. \<not> List.member GENERIC_510K_TERMS (toLowerCase t) \<and> 5 \<le> length t) terms)"
    for terms
    by (simp add: topCombos_def Let_def conj_commute)
  have el: "c \<noteq> [] \<and> (\<forall>t\<in>set c. CHR ''+'' \<notin> set t)" if "c \<in> set cands" for c
    using that topCombos_elements[of c expandedTerms] topCombos_elements[of c originalTerms] plus
    unfolding cands by auto
  have inj: "inj_on (join ''+'') (set cands)"
  proof (rule inj_onI)
    fix a b assume "a \<in> set cands" "b \<in> set cands" "join ''+'' a = join ''+'' b"
    then show "a = b" using join_plus_inj[of a b] el by blast
  qed
  have 2: "distinct (firstByKey {} cands)"
    using firstByKey_keys[of "{}" cands] by (simp add: distinct_map)
  have 3: "set (firstByKey {} cands) = set cands" using firstByKey_set[OF inj, of "{}"] by simp
  from bridgeVia510k_log[OF run] have 4:
    "\<exists>k ext. lg' = lg @ ext \<and> k \<le> length (firstByKey {} cands) \<and>
        filter (\<lambda>c. fst c = Bridge510kSearch) ext = map bridgeCall (take k (firstByKey {} cands)) \<and>
        (out = None \<longrightarrow> k = length (firstByKey {} cands)) \<and>
        bridgeBlocks port dc (length lg) ext"
    unfolding cands by blast
  have 5: "distinct (distinctCodes rs) \<and>
        set (distinctCodes rs) =
          {toUpperCase raw |raw r. r \<in> set rs \<and> r_product_code r = Some raw \<and> PRODUCT_CODE_RE (toUpperCase raw)}"
    for rs
    using distinct_distinctCodes set_distinctCodes_records by blast
  show ?thesis using 1 2 3 4 5 by blast
qed

theorem bridge_candidates_and_lookups_witness:
  "distinct (firstByKey {} (topCombos [''insulin'', ''infusion'', ''pump''] @ topCombos [''insulin'', ''pump''])) \<and>
   set (firstByKey {} (topCombos [''insulin'', ''infusion'', ''pump''] @ topCombos [''insulin'', ''pump''])) =
     set (topCombos [''insulin'', ''infusion'', ''pump''] @ topCombos [''insulin'', ''pump''])"
proof -
  have run: "bridgeVia510k bridgeFinds [''insulin'', ''pump''] [''insulin'', ''infusion'', ''pump''] None [] =
     (Some (Inr (Bridged
        [\<lparr>r_device_name = Some ''Pump, Infusion, Insulin'', r_definition = None, r_product_code = Some ''LZG''\<rparr>]
        [(''LZG'', \<lparr>ci_code = ''LZG'', ci_deviceNames = [''Insulin Pump A'', ''Insulin Pump B''], ci_count = 2\<rparr>)]
        [\<lparr>r_device_name = Some ''Insulin Pump A'', r_definition = None, r_product_code = Some ''LZG''\<rparr>,
         \<lparr>r_device_name = Some ''Insulin Pump B'', r_definition = None, r_product_code = Some ''lzg''\<rparr>])),
      [bridgeCall [''insulin'', ''infusion'', ''pump''], lookupCall None ''LZG''])"
    by code_simp
  have plus: "\<forall>t \<in> set [''insulin'', ''pump''] \<union> set [''insulin'', ''infusion'', ''pump'']. CHR ''+'' \<notin> set t"
    by simp
  from bridge_candidates_and_lookups [OF run plus refl]
  show ?thesis by blast
qed

text \<open>
  With a port whose first 510(k) search leads to a classification, one candidate of six is
  searched: the bridge returns and the other five are never issued. The two records of
  the search carry one product code, looked up once.
\<close>

theorem bridge_returns_early_counterexample:
  "firstByKey {} (topCombos [''insulin'', ''infusion'', ''pump''] @ topCombos [''insulin'', ''pump'']) =
     [[''insulin'', ''infusion'', ''pump''], [''insulin'', ''infusion''], [''infusion'', ''pump''],
      [''insulin'', ''pump''], [''insulin''], [''infusion'']] \<and>
   snd (bridgeVia510k bridgeFinds [''insulin'', ''pump''] [''insulin'', ''infusion'', ''pump''] None []) =
     [bridgeCall [''insulin'', ''infusion'', ''pump''], lookupCall None ''LZG'']"
  by code_simp


end
